theory Spec2Isabelle
  imports Main "HOL-Library.Word"
begin

unbundle bit_operations_syntax

section \<open>Common types\<close>

type_synonym u8 = "8 word"
type_synonym u32 = "32 word"

text \<open>
  The firmware is C++ for a 32-bit target: \<open>int\<close>, \<open>long\<close>, \<open>size_t\<close> and
  \<open>unsigned long\<close> are 32 bits wide. Behaviour the language leaves undefined is a value
  of type \<open>fault\<close>: a read of an array element that the program never wrote (or that
  lies past the end of the array), a write past the end of the caller's buffer, and a
  decimal number that \<open>atoi\<close> cannot represent.
\<close>

datatype fault = OutOfBounds | Overflow

section \<open>The C library functions the driver calls\<close>

definition NUL :: char where
  "NUL = CHR 0x00"

text \<open>The C string that starts at index \<open>p\<close> of a character array.\<close>

definition cstr :: "char list \<Rightarrow> nat \<Rightarrow> string" where
  "cstr buf p = takeWhile (\<lambda>c. c \<noteq> NUL) (drop p buf)"

definition isspace :: "char \<Rightarrow> bool" where
  "isspace c \<longleftrightarrow> c = CHR 0x20 \<or> (9 \<le> (of_char c :: nat) \<and> (of_char c :: nat) \<le> 13)"

definition isdigit :: "char \<Rightarrow> bool" where
  "isdigit c \<longleftrightarrow> 48 \<le> (of_char c :: nat) \<and> (of_char c :: nat) \<le> 57"

definition digit_val :: "char \<Rightarrow> int" where
  "digit_val c = int (of_char c) - 48"

fun decimal :: "int \<Rightarrow> string \<Rightarrow> int" where
  "decimal acc [] = acc"
| "decimal acc (c # cs) = (if isdigit c then decimal (acc * 10 + digit_val c) cs else acc)"

text \<open>
  \<open>atoi\<close>: leading white space, an optional sign, decimal digits up to the first other
  character. A value outside the range of \<open>int\<close> is undefined behaviour.
\<close>

definition strip_sign :: "string \<Rightarrow> bool \<times> string" where
  "strip_sign t = (case t of
       [] \<Rightarrow> (False, [])
     | c # r \<Rightarrow> if c = CHR ''-'' then (True, r)
               else if c = CHR ''+'' then (False, r) else (False, t))"

definition atoi :: "string \<Rightarrow> fault + int" where
  "atoi s = (let (neg, u) = strip_sign (dropWhile isspace s);
                 v = decimal 0 u;
                 r = (if neg then - v else v)
             in if - (2 ^ 31) \<le> r \<and> r < 2 ^ 31 then Inr r else Inl Overflow)"

text \<open>
  \<open>strtol(s, nullptr, 16)\<close>: white space, sign, an optional \<open>0x\<close> that is followed by a
  hexadecimal digit, then hexadecimal digits; 0 when there is none. The driver calls it
  on strings of at most two characters, so the result never leaves the range of \<open>long\<close>.
\<close>

definition hex_val :: "char \<Rightarrow> int option" where
  "hex_val c = (let n = (of_char c :: nat) in
     if 48 \<le> n \<and> n \<le> 57 then Some (int n - 48)
     else if 65 \<le> n \<and> n \<le> 70 then Some (int n - 55)
     else if 97 \<le> n \<and> n \<le> 102 then Some (int n - 87)
     else None)"

fun hexadecimal :: "int \<Rightarrow> string \<Rightarrow> int" where
  "hexadecimal acc [] = acc"
| "hexadecimal acc (c # cs) =
     (case hex_val c of None \<Rightarrow> acc | Some d \<Rightarrow> hexadecimal (acc * 16 + d) cs)"

fun strip_0x :: "string \<Rightarrow> string" where
  "strip_0x (z # x # h # r) =
     (if z = CHR ''0'' \<and> (x = CHR ''x'' \<or> x = CHR ''X'') \<and> hex_val h \<noteq> None
      then h # r else z # x # h # r)"
| "strip_0x s = s"

definition strtol16 :: "string \<Rightarrow> int" where
  "strtol16 s = (let (neg, u) = strip_sign (dropWhile isspace s);
                     v = hexadecimal 0 (strip_0x u)
                 in if neg then - v else v)"

text \<open>
  \<open>strtok(s, ",")\<close> on the array \<open>buf\<close>, scanning from index \<open>start\<close> (the argument of
  the first call, the saved pointer of the later ones). It skips delimiters; at the
  terminator there is no token. Otherwise the token runs to the next delimiter, which is
  overwritten by the terminator. The result is the token's index (if any), the array and
  the saved pointer.
\<close>

definition strtok :: "char list \<Rightarrow> nat \<Rightarrow> nat option \<times> char list \<times> nat" where
  "strtok buf start =
     (let p = start + length (takeWhile (\<lambda>c. c = CHR '','') (drop start buf)) in
      if p \<ge> length buf \<or> buf ! p = NUL then (None, buf, p)
      else
        let q = p + length (takeWhile (\<lambda>c. c \<noteq> CHR '','' \<and> c \<noteq> NUL) (drop p buf)) in
        if q \<ge> length buf \<or> buf ! q = NUL then (Some p, buf, q)
        else (Some p, buf[q := NUL], q + 1))"

text \<open>\<open>strstr(s, pat) != nullptr\<close>.\<close>

fun strstr :: "string \<Rightarrow> string \<Rightarrow> bool" where
  "strstr [] pat = (pat = [])"
| "strstr (c # cs) pat = (take (length pat) (c # cs) = pat \<or> strstr cs pat)"

text \<open>\<open>%zu\<close> and \<open>%02X\<close> of \<open>printf\<close>.\<close>

definition dec_digit :: "nat \<Rightarrow> char" where
  "dec_digit d = char_of (48 + d)"

fun fmt_dec :: "nat \<Rightarrow> string" where
  "fmt_dec n = (if n < 10 then [dec_digit n] else fmt_dec (n div 10) @ [dec_digit (n mod 10)])"

definition hex_digit :: "nat \<Rightarrow> char" where
  "hex_digit d = (if d < 10 then char_of (48 + d) else char_of (55 + d))"

definition fmt_02X :: "u8 \<Rightarrow> string" where
  "fmt_02X b = [hex_digit (unat b div 16), hex_digit (unat b mod 16)]"

section \<open>LoRaComm: the RYLR896 driver\<close>

text \<open>
  The driver object and the UART it talks to. \<open>rx\<close> holds the characters that the UART
  delivers to the current operation before its time window closes; \<open>tx\<close> is the list of
  command lines written so far; \<open>radio\<close> is the module on the other side of the UART:
  the characters it answers to a command line within the response window.
\<close>

record LoRaComm =
  rx :: "char list"
  tx :: "string list"
  radio :: "string \<Rightarrow> char list"
  rssi :: int
  snr :: int

definition available :: "LoRaComm \<Rightarrow> bool" where
  "available l \<longleftrightarrow> rx l \<noteq> []"

text \<open>
  The read loop of \<open>receive\<close>: characters are taken until a line feed has been stored,
  \<open>n\<close> characters have been stored, or nothing more arrives before the timeout.
\<close>

fun read_line :: "char list \<Rightarrow> nat \<Rightarrow> char list \<times> char list" where
  "read_line [] n = ([], [])"
| "read_line (c # cs) n =
     (if n = 0 then ([], c # cs)
      else if c = CHR 0x0A then ([c], cs)
      else (let (l, r) = read_line cs (n - 1) in (c # l, r)))"

text \<open>
  The conversion loop of \<open>receive\<close>. \<open>raw\<close> is the written part of \<open>rawResponse\<close>,
  \<open>tok\<close> the index of the data token. Each round reads \<open>token[i]\<close> and
  \<open>token[i + 1]\<close> and stores one byte. The index \<open>i\<close> cannot wrap around: the array
  has 512 elements, and a read outside its written part is a fault.
\<close>

function hex_loop ::
  "char list \<Rightarrow> nat \<Rightarrow> nat \<Rightarrow> nat \<Rightarrow> nat \<Rightarrow> nat \<Rightarrow> u8 list \<Rightarrow> fault + (nat \<times> u8 list)" where
  "hex_loop raw tok dataLen maxLen i outLen buffer =
     (if i < dataLen \<and> outLen < maxLen then
        (if tok + i + 1 < length raw then
           (if outLen < length buffer then
              hex_loop raw tok dataLen maxLen (i + 2) (outLen + 1)
                (buffer[outLen :=
                   word_of_int (strtol16 (cstr [raw ! (tok + i), raw ! (tok + i + 1), NUL] 0))])
            else Inl OutOfBounds)
         else Inl OutOfBounds)
      else Inr (outLen, buffer))"
  by pat_completeness auto
termination
  by (relation "measure (\<lambda>(raw, tok, dataLen, maxLen, i, outLen, buffer). dataLen - i)") auto

text \<open>The two trailing fields: \<open>token = strtok(nullptr, ","); if (token) x = atoi(token);\<close>\<close>

definition opt_field :: "char list \<Rightarrow> nat \<Rightarrow> int \<Rightarrow> fault + (int \<times> char list \<times> nat)" where
  "opt_field raw save old =
     (case strtok raw save of
        (None, raw', save') \<Rightarrow> Inr (old, raw', save')
      | (Some t, raw', save') \<Rightarrow>
          (case atoi (cstr raw' t) of Inl f \<Rightarrow> Inl f | Inr v \<Rightarrow> Inr (v, raw', save')))"

definition receive :: "LoRaComm \<Rightarrow> u8 list \<Rightarrow> nat \<Rightarrow> fault + (nat \<times> u8 list \<times> LoRaComm)" where
  "receive l buffer maxLen =
     (if \<not> available l then Inr (0, buffer, l)
      else
        let (line, rest) = read_line (rx l) 511;
            l1 = l\<lparr>rx := rest\<rparr>;
            raw = line @ [NUL]
        in
        if take 5 raw \<noteq> ''+RCV='' then Inr (0, buffer, l1)
        else case strtok raw 5 of
          (None, _, _) \<Rightarrow> Inr (0, buffer, l1)
        | (Some _, raw1, s1) \<Rightarrow>
        (case strtok raw1 s1 of
          (None, _, _) \<Rightarrow> Inr (0, buffer, l1)
        | (Some t2, raw2, s2) \<Rightarrow>
        (case atoi (cstr raw2 t2) of
          Inl f \<Rightarrow> Inl f
        | Inr n \<Rightarrow>
        (case strtok raw2 s2 of
          (None, _, _) \<Rightarrow> Inr (0, buffer, l1)
        | (Some t3, raw3, s3) \<Rightarrow>
        (case hex_loop raw3 t3 (nat (n mod 2 ^ 32)) maxLen 0 0 buffer of
          Inl f \<Rightarrow> Inl f
        | Inr (outLen, buffer') \<Rightarrow>
        (case opt_field raw3 s3 (rssi l1) of
          Inl f \<Rightarrow> Inl f
        | Inr (r, raw4, s4) \<Rightarrow>
        (case opt_field raw4 s4 (snr l1) of
          Inl f \<Rightarrow> Inl f
        | Inr (s, _, _) \<Rightarrow> Inr (outLen, buffer', l1\<lparr>rssi := r, snr := s\<rparr>))))))))"


text \<open>
  \<open>waitForResponse\<close>: characters are taken until a line feed or until nothing more
  arrives before the timeout; they are stored while \<open>response\<close> is not null and
  \<open>idx < maxLen - 1\<close> (unsigned, so \<open>maxLen = 0\<close> wraps). The result is \<open>idx > 0\<close>.
\<close>

fun wait_loop :: "char list \<Rightarrow> bool \<Rightarrow> nat \<Rightarrow> string \<Rightarrow> string \<times> char list" where
  "wait_loop [] store cap acc = (acc, [])"
| "wait_loop (c # cs) store cap acc =
     (let acc' = (if store \<and> length acc < cap then acc @ [c] else acc)
      in if c = CHR 0x0A then (acc', cs) else wait_loop cs store cap acc')"

definition waitForResponse :: "LoRaComm \<Rightarrow> bool \<Rightarrow> nat \<Rightarrow> bool \<times> string \<times> LoRaComm" where
  "waitForResponse l store maxLen =
     (let (resp, rest) = wait_loop (rx l) store (nat ((int maxLen - 1) mod 2 ^ 32)) []
      in (resp \<noteq> [], resp, l\<lparr>rx := rest\<rparr>))"

text \<open>
  \<open>sendCommand\<close>: the pending input is discarded, the command line is written, and the
  module's answer is awaited.
\<close>

definition sendCommand :: "LoRaComm \<Rightarrow> string \<Rightarrow> bool \<Rightarrow> nat \<Rightarrow> bool \<times> string \<times> LoRaComm" where
  "sendCommand l cmd store maxResponse =
     waitForResponse (l\<lparr>rx := radio l cmd, tx := tx l @ [cmd]\<rparr>) store maxResponse"

definition hex_of :: "u8 list \<Rightarrow> string" where
  "hex_of data = concat (map fmt_02X data)"

definition transmit :: "LoRaComm \<Rightarrow> u8 list \<Rightarrow> bool \<times> LoRaComm" where
  "transmit l data =
     (if length data > 240 then (False, l)
      else
        let cmd = take 559 (''AT+SEND=1,'' @ fmt_dec (length data * 2) @ '','' @ hex_of data);
            (ok, response, l') = sendCommand l cmd True 64
        in if \<not> ok then (False, l') else (strstr (cstr (response @ [NUL]) 0) ''+OK'', l'))"

section \<open>SecureElement: the ATECC608B wrapper\<close>

text \<open>
  The chip and its vendor library are outside the repository; the wrapper's calls into
  them are the fields of this record. An operation that reports failure is \<open>None\<close> or
  \<open>False\<close>. \<open>randoms\<close> lists the outcomes of the successive \<open>random()\<close> calls (a
  call beyond the end of the list fails). The
  hash engine is driven by start, update and end; \<open>sha256Update\<close> is given the bytes
  absorbed so far and the next chunk, \<open>sha256End\<close> the whole absorbed message.
\<close>

record ATECCX08A =
  generatePublicKey :: "nat \<Rightarrow> u8 list option"
  createSignature :: "u8 list \<Rightarrow> u8 list option"
  macData :: "u8 list \<Rightarrow> u8 list option"
  randoms :: "u8 list option list"
  sha256Start :: bool
  sha256Update :: "u8 list \<Rightarrow> u8 list \<Rightarrow> bool"
  sha256End :: "u8 list \<Rightarrow> u8 list option"

record SecureElement =
  initialized :: bool
  atecc :: ATECCX08A

definition SLOT_DEVICE_KEY :: nat where "SLOT_DEVICE_KEY = 0"
definition SLOT_BLINDING_FACTOR :: nat where "SLOT_BLINDING_FACTOR = 1"
definition NULLIFIER_DOMAIN :: string where "NULLIFIER_DOMAIN = ''msingi:nullifier:v1''"
definition COMMITMENT_DOMAIN :: string where "COMMITMENT_DOMAIN = ''msingi:commitment:v1''"
definition SENSOR_INTERVAL_MS :: u32 where "SENSOR_INTERVAL_MS = 30 * 60 * 1000"

definition bytes_of_string :: "string \<Rightarrow> u8 list" where
  "bytes_of_string s = map (\<lambda>c. of_char c) s"

text \<open>\<open>memcpy(dst + off, src, n)\<close> and \<open>memset(dst, v, n)\<close> on arrays as lists.\<close>

definition memcpy :: "u8 list \<Rightarrow> nat \<Rightarrow> u8 list \<Rightarrow> nat \<Rightarrow> u8 list" where
  "memcpy dst off src n = take off dst @ take n src @ drop (off + n) dst"

definition memset :: "u8 list \<Rightarrow> u8 \<Rightarrow> nat \<Rightarrow> u8 list" where
  "memset dst v n = replicate n v @ drop n dst"

definition getPublicKey :: "SecureElement \<Rightarrow> nat \<Rightarrow> u8 list option" where
  "getPublicKey se slot =
     (if \<not> initialized se then None
      else case generatePublicKey (atecc se) slot of
        None \<Rightarrow> None
      | Some pk \<Rightarrow> Some (take 64 pk))"

text \<open>The chunk loop of \<open>sha256\<close>: 64 bytes at a time, then the rest.\<close>

function sha_updates :: "ATECCX08A \<Rightarrow> u8 list \<Rightarrow> u8 list \<Rightarrow> u8 list option" where
  "sha_updates hw ctx data =
     (if length data > 64 then
        (if sha256Update hw ctx (take 64 data)
         then sha_updates hw (ctx @ take 64 data) (drop 64 data) else None)
      else if length data > 0 then
        (if sha256Update hw ctx data then Some (ctx @ data) else None)
      else Some ctx)"
  by pat_completeness auto
termination
  by (relation "measure (\<lambda>(hw, ctx, data). length data)") auto

definition sha256 :: "SecureElement \<Rightarrow> u8 list \<Rightarrow> u8 list option" where
  "sha256 se data =
     (if \<not> initialized se then None
      else if \<not> sha256Start (atecc se) then None
      else case sha_updates (atecc se) [] data of
        None \<Rightarrow> None
      | Some ctx \<Rightarrow> sha256End (atecc se) ctx)"

definition sign :: "SecureElement \<Rightarrow> u8 list \<Rightarrow> u8 list option" where
  "sign se data =
     (if \<not> initialized se then None
      else case sha256 se data of
        None \<Rightarrow> None
      | Some hash \<Rightarrow>
          (case createSignature (atecc se) hash of
             None \<Rightarrow> None
           | Some sig \<Rightarrow> Some (take 64 sig)))"

definition epoch_bytes :: "u32 \<Rightarrow> u8 list" where
  "epoch_bytes epoch =
     [ucast (drop_bit 24 epoch AND 0xFF), ucast (drop_bit 16 epoch AND 0xFF),
      ucast (drop_bit 8 epoch AND 0xFF), ucast (drop_bit 0 epoch AND 0xFF)]"

definition computeNullifier :: "SecureElement \<Rightarrow> u32 \<Rightarrow> u8 list option" where
  "computeNullifier se epoch =
     (if \<not> initialized se then None
      else
        let message = memset (replicate 64 0) 0 64;
            domain = bytes_of_string NULLIFIER_DOMAIN;
            domainLen = length domain;
            message = memcpy message 0 domain domainLen;
            message = memcpy message domainLen (epoch_bytes epoch) 4
        in case macData (atecc se) (take (domainLen + 4) message) of
             None \<Rightarrow> None
           | Some mac \<Rightarrow> Some (take 32 mac))"

text \<open>
  \<open>random(buffer, length)\<close>: 32 bytes per call of the chip. The result is the success
  flag, the buffer (partly filled when a call fails) and the chip with the used
  outcomes removed.
\<close>

function random_loop ::
  "u8 list option list \<Rightarrow> u8 list \<Rightarrow> nat \<Rightarrow> nat \<Rightarrow> bool \<times> u8 list \<times> u8 list option list" where
  "random_loop rs buffer ptr remaining =
     (if remaining > 0 then
        (case rs of
           [] \<Rightarrow> (False, buffer, [])
         | None # rs' \<Rightarrow> (False, buffer, rs')
         | Some r # rs' \<Rightarrow>
             (let toCopy = (if remaining < 32 then remaining else 32)
              in random_loop rs' (memcpy buffer ptr r toCopy) (ptr + toCopy) (remaining - toCopy)))
      else (True, buffer, rs))"
  by pat_completeness auto
termination
  by (relation "measure (\<lambda>(rs, buffer, ptr, remaining). remaining)") auto

definition random :: "SecureElement \<Rightarrow> u8 list \<Rightarrow> nat \<Rightarrow> bool \<times> u8 list \<times> SecureElement" where
  "random se buffer len =
     (if \<not> initialized se then (False, buffer, se)
      else
        let (ok, buffer', rs') = random_loop (randoms (atecc se)) buffer 0 len
        in (ok, buffer', se\<lparr>atecc := (atecc se)\<lparr>randoms := rs'\<rparr>\<rparr>))"


section \<open>Sensor data and the telemetry packet\<close>

text \<open>
  A \<open>float\<close> is only ever copied by the code modelled here, so it is its 32-bit
  pattern. \<open>Sensors::readAll\<close> fills every field of the structure from the hardware;
  its outcome is an input of the control loop.
\<close>

type_synonym float32 = u32

record SensorData =
  sd_temperature :: float32
  sd_humidity :: float32
  sd_pressure :: float32
  sd_soilMoisture :: float32
  sd_timestamp :: u32
  sd_valid :: bool

record DataPacket =
  commitment :: "u8 list"
  temperature :: float32
  humidity :: float32
  soilMoisture :: float32
  timestamp :: u32
  nullifier :: "u8 list"
  signature :: "u8 list"

text \<open>
  The object representation. Every member is placed at the next offset that is a
  multiple of its alignment, and the size of the structure is rounded up to the largest
  alignment. The target is little-endian.
\<close>

definition align_up :: "nat \<Rightarrow> nat \<Rightarrow> nat" where
  "align_up off a = ((off + a - 1) div a) * a"

fun member_offsets :: "nat \<Rightarrow> (nat \<times> nat) list \<Rightarrow> nat list" where
  "member_offsets off [] = []"
| "member_offsets off ((sz, al) # ms) =
     align_up off al # member_offsets (align_up off al + sz) ms"

fun members_end :: "nat \<Rightarrow> (nat \<times> nat) list \<Rightarrow> nat" where
  "members_end off [] = off"
| "members_end off ((sz, al) # ms) = members_end (align_up off al + sz) ms"

definition struct_size :: "(nat \<times> nat) list \<Rightarrow> nat" where
  "struct_size ms = align_up (members_end 0 ms) (fold max (map snd ms) 1)"

text \<open>Size and alignment of the members of \<open>DataPacket\<close>, in declaration order.\<close>

definition DataPacket_members :: "(nat \<times> nat) list" where
  "DataPacket_members = [(32, 1), (4, 4), (4, 4), (4, 4), (4, 4), (32, 1), (64, 1)]"

definition sizeof_DataPacket :: nat where
  "sizeof_DataPacket = struct_size DataPacket_members"

definition le32 :: "u32 \<Rightarrow> u8 list" where
  "le32 w = [ucast w, ucast (drop_bit 8 w), ucast (drop_bit 16 w), ucast (drop_bit 24 w)]"

fun place_members :: "u8 list \<Rightarrow> (nat \<times> u8 list \<times> nat) list \<Rightarrow> u8 list" where
  "place_members img [] = img"
| "place_members img ((off, bs, sz) # ms) = place_members (memcpy img off bs sz) ms"

definition member_bytes :: "DataPacket \<Rightarrow> u8 list list" where
  "member_bytes p =
     [commitment p, le32 (temperature p), le32 (humidity p), le32 (soilMoisture p),
      le32 (timestamp p), nullifier p, signature p]"

definition packet_image :: "DataPacket \<Rightarrow> u8 list" where
  "packet_image p =
     place_members (replicate sizeof_DataPacket 0)
       (zip (member_offsets 0 DataPacket_members)
            (zip (member_bytes p) (map fst DataPacket_members)))"

section \<open>BraceClient: anonymous enrollment\<close>

text \<open>
  \<open>has_se\<close> and \<open>has_lora\<close> say whether the pointers \<open>_se\<close> and \<open>_lora\<close> are set; when
  set they point to the two global driver objects.
\<close>

record BraceClient =
  has_se :: bool
  has_lora :: bool
  registered :: bool
  bc_commitment :: "u8 list"
  blindingFactor :: "u8 list"

text \<open>
  The global objects and variables of the firmware, and \<open>loop\<close>'s static local.
  \<open>stack\<close> is not a variable of the program: it gives, byte by byte, what the storage
  of \<open>computeCommitment\<close>'s local array \<open>preimage\<close>, which is declared without an
  initialiser, holds when the function is entered. The program never chooses these bytes.
\<close>

record firmware =
  secureElement :: SecureElement
  loraComm :: LoRaComm
  braceClient :: BraceClient
  deviceRegistered :: bool
  currentEpoch :: u32
  commitmentBytes :: "u8 list"
  lastReading :: u32
  stack :: "nat \<Rightarrow> u8"

definition isRegistered :: "firmware \<Rightarrow> bool" where
  "isRegistered fw = registered (braceClient fw)"

definition generateBlindingFactor :: "firmware \<Rightarrow> bool \<times> firmware" where
  "generateBlindingFactor fw =
     (let (ok, bf, se') = random (secureElement fw) (blindingFactor (braceClient fw)) 32
      in (ok, fw\<lparr>secureElement := se',
                 braceClient := (braceClient fw)\<lparr>blindingFactor := bf\<rparr>\<rparr>))"

text \<open>
  The 128-byte preimage that \<open>computeCommitment\<close> assembles in its local array
  \<open>preimage\<close>; \<open>preimage0\<close> is what the array holds before the first statement.
\<close>

definition commitment_preimage :: "u8 list \<Rightarrow> u8 list \<Rightarrow> u8 list \<Rightarrow> u8 list" where
  "commitment_preimage preimage0 publicKey bf =
     (let domain = bytes_of_string COMMITMENT_DOMAIN;
          preimage = memset preimage0 0 32;
          preimage = memcpy preimage 0 domain (length domain);
          preimage = memcpy preimage 32 publicKey 64;
          preimage = memcpy preimage 96 bf 32
      in preimage)"

definition computeCommitment :: "firmware \<Rightarrow> bool \<times> firmware" where
  "computeCommitment fw =
     (case getPublicKey (secureElement fw) SLOT_DEVICE_KEY of
        None \<Rightarrow> (False, fw)
      | Some publicKey \<Rightarrow>
          (case sha256 (secureElement fw)
                  (take 128 (commitment_preimage (map (stack fw) [0..<128]) publicKey
                               (blindingFactor (braceClient fw)))) of
             None \<Rightarrow> (False, fw)
           | Some h \<Rightarrow> (True, fw\<lparr>braceClient := (braceClient fw)\<lparr>bc_commitment := h\<rparr>\<rparr>)))"

definition sendRegistrationRequest :: "firmware \<Rightarrow> bool \<times> firmware" where
  "sendRegistrationRequest fw =
     (let message = memcpy (0 # replicate 32 0) 1 (bc_commitment (braceClient fw)) 32;
          (ok, l') = transmit (loraComm fw) (take 33 message)
      in (ok, fw\<lparr>loraComm := l'\<rparr>))"

definition BraceClient_begin :: "firmware \<Rightarrow> firmware" where
  "BraceClient_begin fw =
     (let fw1 = fw\<lparr>braceClient := (braceClient fw)\<lparr>has_se := True, has_lora := True,
                                                    registered := False\<rparr>\<rparr>
      in case getPublicKey (secureElement fw1) SLOT_BLINDING_FACTOR of
           None \<Rightarrow> fw1
         | Some testKey \<Rightarrow>
             (let (ok, fw2) = computeCommitment fw1
              in if ok then fw2\<lparr>braceClient := (braceClient fw2)\<lparr>registered := True\<rparr>\<rparr>
                 else fw2))"

definition registerDevice :: "firmware \<Rightarrow> bool \<times> firmware" where
  "registerDevice fw =
     (if \<not> has_se (braceClient fw) \<or> \<not> has_lora (braceClient fw) then (False, fw)
      else
        let (ok1, fw1) = generateBlindingFactor fw in
        if \<not> ok1 then (False, fw1)
        else
          let (ok2, fw2) = computeCommitment fw1 in
          if \<not> ok2 then (False, fw2)
          else
            let (ok3, fw3) = sendRegistrationRequest fw2 in
            if \<not> ok3 then (False, fw3) else (True, fw3))"

definition getCommitment :: "firmware \<Rightarrow> u8 list \<Rightarrow> bool \<times> u8 list" where
  "getCommitment fw dst =
     (if \<not> registered (braceClient fw) then (False, dst)
      else (True, memcpy dst 0 (bc_commitment (braceClient fw)) 32))"


section \<open>The control loop\<close>

text \<open>
  What one pass of \<open>loop\<close> reads from its environment: \<open>millis()\<close> at the top of the
  pass, the outcome of \<open>sensors.readAll\<close>, and \<open>millis()\<close> when the packet is stamped.
\<close>

record tick =
  now :: u32
  reading :: SensorData
  stamp :: u32

text \<open>
  \<open>(buffer[1] << 24) | (buffer[2] << 16) | (buffer[3] << 8) | buffer[4]\<close>, stored in a
  32-bit unsigned variable.
\<close>

definition epoch_of :: "u8 list \<Rightarrow> u32" where
  "epoch_of buffer =
     push_bit 24 (ucast (buffer ! 1)) OR push_bit 16 (ucast (buffer ! 2))
       OR push_bit 8 (ucast (buffer ! 3)) OR ucast (buffer ! 4)"

text \<open>
  The local \<open>buffer\<close> of the handler is not initialised; the handler reads
  \<open>buffer[0]\<close> only when \<open>len > 0\<close> and \<open>buffer[1..4]\<close> only when \<open>len \<ge> 5\<close>, which
  \<open>receive\<close> has written by then.
\<close>

definition handleIncomingMessage :: "firmware \<Rightarrow> fault + firmware" where
  "handleIncomingMessage fw =
     (case receive (loraComm fw) (replicate 256 0) 256 of
        Inl f \<Rightarrow> Inl f
      | Inr (len, buffer, l') \<Rightarrow>
          (let fw1 = fw\<lparr>loraComm := l'\<rparr> in
           if len > 0 then
             (let msgType = buffer ! 0 in
              if msgType = 0x01 then Inr (fw1\<lparr>deviceRegistered := True\<rparr>)
              else if msgType = 0x02 then
                (if len \<ge> 5 then Inr (fw1\<lparr>currentEpoch := epoch_of buffer\<rparr>) else Inr fw1)
              else if msgType = 0x03 then Inr fw1
              else Inr fw1)
           else Inr fw1))"

definition attemptRegistration :: "firmware \<Rightarrow> firmware" where
  "attemptRegistration fw =
     (let (ok, fw1) = registerDevice fw in
      if ok then fw1\<lparr>commitmentBytes := snd (getCommitment fw1 (commitmentBytes fw1))\<rparr>
      else fw1)"

text \<open>
  The packet before signing; its \<open>signature\<close> member is not initialised yet, and the
  bytes handed to \<open>sign\<close> are the first \<open>sizeof(packet) - 64\<close> of the object.
\<close>

definition unsigned_packet :: "firmware \<Rightarrow> tick \<Rightarrow> u8 list \<Rightarrow> DataPacket" where
  "unsigned_packet fw t nullifier_bytes =
     \<lparr>commitment = memcpy (replicate 32 0) 0 (commitmentBytes fw) 32,
      temperature = sd_temperature (reading t),
      humidity = sd_humidity (reading t),
      soilMoisture = sd_soilMoisture (reading t),
      timestamp = stamp t,
      nullifier = memcpy (replicate 32 0) 0 nullifier_bytes 32,
      signature = replicate 64 0\<rparr>"

definition collectAndTransmitData :: "firmware \<Rightarrow> tick \<Rightarrow> firmware" where
  "collectAndTransmitData fw t =
     (case computeNullifier (secureElement fw) (currentEpoch fw) of
        None \<Rightarrow> fw
      | Some nullifier_bytes \<Rightarrow>
          (let packet = unsigned_packet fw t nullifier_bytes in
           case sign (secureElement fw) (take (sizeof_DataPacket - 64) (packet_image packet)) of
             None \<Rightarrow> fw
           | Some sig \<Rightarrow>
               (let packet = packet\<lparr>signature := memcpy (signature packet) 0 sig 64\<rparr>;
                    (ok, l') = transmit (loraComm fw) (take sizeof_DataPacket (packet_image packet))
                in fw\<lparr>loraComm := l'\<rparr>)))"

definition cycle_due :: "firmware \<Rightarrow> tick \<Rightarrow> bool" where
  "cycle_due fw t \<longleftrightarrow> now t - lastReading fw \<ge> SENSOR_INTERVAL_MS \<or> lastReading fw = 0"

definition loop :: "firmware \<Rightarrow> tick \<Rightarrow> fault + firmware" where
  "loop fw t =
     (case (if available (loraComm fw) then handleIncomingMessage fw else Inr fw) of
        Inl f \<Rightarrow> Inl f
      | Inr fw1 \<Rightarrow>
          if cycle_due fw1 t then
            (let fw2 = fw1\<lparr>lastReading := now t\<rparr> in
             if \<not> deviceRegistered fw2 then Inr (attemptRegistration fw2)
             else Inr (collectAndTransmitData fw2 t))
          else Inr fw1)"

text \<open>
  The part of the start-up routine after the hardware is up: the client is initialised
  and the registration status copied.
\<close>

definition setup_fw :: "firmware \<Rightarrow> firmware" where
  "setup_fw fw =
     (let fw1 = BraceClient_begin fw;
          fw2 = fw1\<lparr>deviceRegistered := isRegistered fw1\<rparr>
      in if deviceRegistered fw2
         then fw2\<lparr>commitmentBytes := snd (getCommitment fw2 (commitmentBytes fw2))\<rparr>
         else fw2)"

text \<open>
  Successive passes of \<open>loop\<close>. Before each pass the UART may have received further
  characters, which join the pending input.
\<close>

fun run :: "firmware \<Rightarrow> (char list \<times> tick) list \<Rightarrow> fault + firmware" where
  "run fw [] = Inr fw"
| "run fw ((arrived, t) # ts) =
     (case loop (fw\<lparr>loraComm := (loraComm fw)\<lparr>rx := rx (loraComm fw) @ arrived\<rparr>\<rparr>) t of
        Inl f \<Rightarrow> Inl f
      | Inr fw' \<Rightarrow> run fw' ts)"


section \<open>The encodings as the specification words them\<close>

text \<open>A 32-bit value as four big-endian bytes: the most significant base-256 digit first.\<close>

definition spec_be32 :: "u32 \<Rightarrow> u8 list" where
  "spec_be32 e = map (\<lambda>k. word_of_nat (unat e div 256 ^ k mod 256)) [3, 2, 1, 0]"

text \<open>An ASCII tag, zero-padded to 32 bytes.\<close>

definition spec_pad32 :: "string \<Rightarrow> u8 list" where
  "spec_pad32 tag = bytes_of_string tag @ replicate (32 - length tag) 0"

text \<open>
  The non-empty comma-separated fields of a string: what is left of its grammar
  \<open><addr>,<len>,<hexdata>,<rssi>,<snr>\<close> when empty fields are skipped. Only the
  comma separates: every other character, a carriage return or a line feed too, belongs
  to a field. So the fields of \<open>1,2\<close> followed by CR LF are \<open>1\<close> and \<open>2\<close> CR LF, while
  those of \<open>1,2,\<close> followed by CR LF are \<open>1\<close>, \<open>2\<close> and CR LF.
\<close>

function frame_fields :: "string \<Rightarrow> string list" where
  "frame_fields s =
     (let t = dropWhile (\<lambda>c. c = CHR '','') s in
      if t = [] then []
      else takeWhile (\<lambda>c. c \<noteq> CHR '','') t # frame_fields (tl (dropWhile (\<lambda>c. c \<noteq> CHR '','') t)))"
  by pat_completeness auto
termination
proof (relation "measure length")
  show "wf (measure length)" by simp
next
  fix s t :: string
  assume t: "t = dropWhile (\<lambda>c. c = CHR '','') s" and ne: "t \<noteq> []"
  have a: "length (dropWhile (\<lambda>c. c \<noteq> CHR '','') t) \<le> length t"
    by (rule length_dropWhile_le)
  have "length (tl (dropWhile (\<lambda>c. c \<noteq> CHR '','') t)) < length t"
  proof (cases "dropWhile (\<lambda>c. c \<noteq> CHR '','') t")
    case Nil
    show ?thesis unfolding Nil using ne by simp
  next
    case (Cons x xs)
    show ?thesis using a unfolding Cons by simp
  qed
  also have "length t \<le> length s"
    unfolding t by (rule length_dropWhile_le)
  finally have "length (tl (dropWhile (\<lambda>c. c \<noteq> CHR '','') t)) < length s" .
  then show "(tl (dropWhile (\<lambda>c. c \<noteq> CHR '','') t), s) \<in> measure length"
    unfolding in_measure .
qed

text \<open>
  The fields that precede the signature, "commitment through nullifier", for a packet
  and for the values of a telemetry cycle: the held commitment, the three measurements,
  the time stamp and the nullifier. With the signature they make the packet of the cycle.
\<close>

definition pre_signature_fields :: "DataPacket \<Rightarrow> u8 list" where
  "pre_signature_fields p =
     commitment p @ le32 (temperature p) @ le32 (humidity p) @ le32 (soilMoisture p)
       @ le32 (timestamp p) @ nullifier p"

definition telemetry_fields :: "firmware \<Rightarrow> tick \<Rightarrow> u8 list \<Rightarrow> u8 list" where
  "telemetry_fields fw t nf =
     commitmentBytes fw @ le32 (sd_temperature (reading t)) @ le32 (sd_humidity (reading t))
       @ le32 (sd_soilMoisture (reading t)) @ le32 (stamp t) @ nf"

definition telemetry_packet :: "firmware \<Rightarrow> tick \<Rightarrow> u8 list \<Rightarrow> u8 list \<Rightarrow> DataPacket" where
  "telemetry_packet fw t nf sig =
     \<lparr>commitment = commitmentBytes fw,
      temperature = sd_temperature (reading t),
      humidity = sd_humidity (reading t),
      soilMoisture = sd_soilMoisture (reading t),
      timestamp = stamp t,
      nullifier = nf,
      signature = sig\<rparr>"

text \<open>A state with the client's \<open>_registered\<close> flag replaced.\<close>

definition with_registered :: "bool \<Rightarrow> firmware \<Rightarrow> firmware" where
  "with_registered b fw = fw\<lparr>braceClient := (braceClient fw)\<lparr>registered := b\<rparr>\<rparr>"


section \<open>A concrete device for the examples\<close>

text \<open>
  A chip whose operations all succeed and return buffers of the declared sizes, a radio
  module that acknowledges every command, and a device that has just been powered up
  with no stored blinding factor.
\<close>

definition demo_chip :: ATECCX08A where
  "demo_chip =
     \<lparr>generatePublicKey = (\<lambda>slot. if slot = 0 then Some (replicate 64 0xAA) else None),
      createSignature = (\<lambda>h. Some (h @ h)),
      macData = (\<lambda>m. Some (take 32 (m @ replicate 32 0))),
      randoms = [Some (replicate 32 0x11), Some (replicate 32 0x22)],
      sha256Start = True,
      sha256Update = (\<lambda>ctx chunk. True),
      sha256End = (\<lambda>m. Some (take 32 (rev m @ replicate 32 0)))\<rparr>"

definition ok_radio :: "string \<Rightarrow> char list" where
  "ok_radio cmd = ''+OK'' @ [CHR 0x0D, CHR 0x0A]"

definition demo_lora :: "char list \<Rightarrow> LoRaComm" where
  "demo_lora pending = \<lparr>rx = pending, tx = [], radio = ok_radio, rssi = 0, snr = 0\<rparr>"

definition demo_fw :: firmware where
  "demo_fw =
     \<lparr>secureElement = \<lparr>initialized = True, atecc = demo_chip\<rparr>,
      loraComm = demo_lora [],
      braceClient = \<lparr>has_se = True, has_lora = True, registered = False,
                      bc_commitment = replicate 32 0, blindingFactor = replicate 32 0\<rparr>,
      deviceRegistered = False,
      currentEpoch = 0,
      commitmentBytes = replicate 32 0,
      lastReading = 0,
      stack = (\<lambda>i. 0xEE)\<rparr>"

definition demo_tick :: tick where
  "demo_tick =
     \<lparr>now = 5,
      reading = \<lparr>sd_temperature = 0x41AA6666, sd_humidity = 0x425C0000, sd_pressure = 0,
                 sd_soilMoisture = 0x42200000, sd_timestamp = 5, sd_valid = True\<rparr>,
      stamp = 7\<rparr>"

text \<open>The nullifier and the signature that the example chip produces for \<open>demo_tick\<close>.\<close>

definition demo_nullifier :: "u8 list" where
  "demo_nullifier = bytes_of_string ''msingi:nullifier:v1'' @ [0, 0, 0, 0] @ replicate 9 0"

definition demo_signature :: "u8 list" where
  "demo_signature = rev demo_nullifier @ rev demo_nullifier"

text \<open>The same device with a chip that refuses to sign.\<close>

definition nosign_fw :: firmware where
  "nosign_fw =
     demo_fw\<lparr>secureElement :=
       \<lparr>initialized = True, atecc = demo_chip\<lparr>createSignature := (\<lambda>h. None)\<rparr>\<rparr>\<rparr>"

text \<open>
  The device with a blinding factor in place, the device with the client's flag and the
  loop's flag both set, a later pass of the loop, and the line that carries a
  registration acknowledgment.
\<close>

definition demo_blinded :: firmware where
  "demo_blinded = demo_fw\<lparr>braceClient := (braceClient demo_fw)\<lparr>blindingFactor := replicate 32 0x11\<rparr>\<rparr>"

definition demo_registered :: firmware where
  "demo_registered =
     demo_fw\<lparr>braceClient := (braceClient demo_fw)\<lparr>registered := True\<rparr>, deviceRegistered := True\<rparr>"

definition later_tick :: tick where
  "later_tick = demo_tick\<lparr>now := 1800005\<rparr>"

definition ack_line :: "char list" where
  "ack_line = ''+RCV=1,2,01,-40,9'' @ [CHR 0x0D, CHR 0x0A]"

text \<open>
  The unregistered device holding epoch 9 with an epoch update to 5 pending, and the
  unregistered device with a registration acknowledgment pending.
\<close>

definition epoch9_fw :: firmware where
  "epoch9_fw = demo_fw\<lparr>currentEpoch := 9, loraComm := demo_lora ''+RCV=1,10,0200000005,-40,9''\<rparr>"




text \<open>What a call of \<open>receive\<close> hands to its caller: the bytes stored and the metadata.\<close>

definition received :: "fault + (nat \<times> u8 list \<times> LoRaComm) \<Rightarrow> fault + (u8 list \<times> int \<times> int)" where
  "received r = (case r of Inl f \<Rightarrow> Inl f | Inr (n, b, l) \<Rightarrow> Inr (take n b, rssi l, snr l))"

section \<open>Facts about the library functions\<close>

declare sha_updates.simps [simp del] hex_loop.simps [simp del] random_loop.simps [simp del]
  fmt_dec.simps [simp del] frame_fields.simps [simp del]

lemma length_le32 [simp]: "length (le32 w) = 4"
  by (simp add: le32_def)

lemma memcpy_here:
  "length src = n \<Longrightarrow> length mid = n \<Longrightarrow> memcpy (mid @ post) 0 src n = src @ post"
  by (simp add: memcpy_def)

lemma memcpy_whole:
  "length src = n \<Longrightarrow> length dst = n \<Longrightarrow> memcpy dst 0 src n = src"
  by (simp add: memcpy_def)

lemma memcpy_skip:
  "length a \<le> off \<Longrightarrow> memcpy (a @ rest) off src n = a @ memcpy rest (off - length a) src n"
  by (simp add: memcpy_def)

lemma or_is_add4:
  fixes a b c d :: u8
  shows "(push_bit 24 (ucast a) OR push_bit 16 (ucast b) OR push_bit 8 (ucast c) OR ucast d :: u32)
     = push_bit 24 (ucast a) + push_bit 16 (ucast b) + push_bit 8 (ucast c) + ucast d"
proof -
  have 1: "(push_bit 8 (ucast c) + ucast d :: u32) = push_bit 8 (ucast c) OR ucast d"
    by (rule disjunctive_add) (auto simp add: bit_simps dest: bit_imp_le_length)
  have 2: "(push_bit 16 (ucast b) + (push_bit 8 (ucast c) OR ucast d) :: u32)
      = push_bit 16 (ucast b) OR (push_bit 8 (ucast c) OR ucast d)"
    by (rule disjunctive_add) (auto simp add: bit_simps dest: bit_imp_le_length)
  have 3: "(push_bit 24 (ucast a) + (push_bit 16 (ucast b) OR (push_bit 8 (ucast c) OR ucast d)) :: u32)
      = push_bit 24 (ucast a) OR (push_bit 16 (ucast b) OR (push_bit 8 (ucast c) OR ucast d))"
    by (rule disjunctive_add) (auto simp add: bit_simps dest: bit_imp_le_length)
  show ?thesis
    using 1 2 3 by (simp add: or.assoc add.assoc)
qed

lemma epoch_of_value:
  "epoch_of buf = word_of_nat (unat (buf ! 1) * 2 ^ 24 + unat (buf ! 2) * 2 ^ 16
                                 + unat (buf ! 3) * 2 ^ 8 + unat (buf ! 4))"
  unfolding epoch_of_def or_is_add4
  by (simp add: push_bit_eq_mult)

lemma byte_of_epoch:
  fixes e :: u32
  shows "(ucast (drop_bit n e AND 0xFF) :: u8) = word_of_nat (unat e div 2 ^ n mod 256)"
proof -
  have m: "(0xFF :: u32) = mask 8"
    by (simp add: mask_eq_exp_minus_1)
  have "(ucast (drop_bit n e AND 0xFF) :: u8) = ucast (drop_bit n e)"
    unfolding m by (rule bit_word_eqI) (auto simp add: bit_simps)
  also have "\<dots> = word_of_nat (unat (drop_bit n e))"
    by (simp only: of_nat_unat)
  also have "\<dots> = word_of_nat (unat e div 2 ^ n)"
    by (subst unat_drop_bit_eq) (simp only: drop_bit_eq_div)
  also have "\<dots> = word_of_nat (unat e div 2 ^ n mod 256)"
    by (simp add: word_unat_eq_iff unat_of_nat)
  finally show ?thesis .
qed

lemma epoch_bytes_be32: "epoch_bytes e = spec_be32 e"
  using byte_of_epoch [of 0 e]
  by (simp add: epoch_bytes_def spec_be32_def byte_of_epoch)

section \<open>The layout of the packet\<close>

lemma sizeof_DataPacket_144: "sizeof_DataPacket = 144"
  by (simp add: sizeof_DataPacket_def struct_size_def DataPacket_members_def align_up_def)

lemma DataPacket_offsets: "member_offsets 0 DataPacket_members = [0, 32, 36, 40, 44, 48, 80]"
  by (simp add: DataPacket_members_def align_up_def)

lemma packet_image_concat:
  assumes "length (commitment p) = 32" "length (nullifier p) = 32" "length (signature p) = 64"
  shows "packet_image p =
     commitment p @ le32 (temperature p) @ le32 (humidity p) @ le32 (soilMoisture p)
       @ le32 (timestamp p) @ nullifier p @ signature p"
proof -
  have r: "replicate sizeof_DataPacket (0::u8) =
      replicate 32 0 @ replicate 4 0 @ replicate 4 0 @ replicate 4 0
        @ replicate 4 0 @ replicate 32 0 @ replicate 64 0"
  proof -
    have "(144::nat) = 32 + (4 + (4 + (4 + (4 + (32 + 64)))))" by simp
    then show ?thesis
      unfolding sizeof_DataPacket_144 by (simp only: replicate_add)
  qed
  have "packet_image p =
    memcpy (memcpy (memcpy (memcpy (memcpy (memcpy (memcpy (replicate sizeof_DataPacket 0)
      0 (commitment p) 32) 32 (le32 (temperature p)) 4) 36 (le32 (humidity p)) 4)
      40 (le32 (soilMoisture p)) 4) 44 (le32 (timestamp p)) 4) 48 (nullifier p) 32)
      80 (signature p) 64"
    unfolding packet_image_def DataPacket_offsets member_bytes_def
    by (simp add: DataPacket_members_def)
  also have "\<dots> = commitment p @ le32 (temperature p) @ le32 (humidity p)
      @ le32 (soilMoisture p) @ le32 (timestamp p) @ nullifier p @ signature p"
    unfolding r
    by (simp add: memcpy_here memcpy_skip memcpy_whole assms)
  finally show ?thesis .
qed


section \<open>The radio commands and the hash engine\<close>

lemma length_hex_of: "length (hex_of d) = 2 * length d"
  by (induction d) (simp_all add: hex_of_def fmt_02X_def)

lemma sendCommand_fields:
  "sendCommand l cmd store n = (ok, resp, l') \<Longrightarrow>
     tx l' = tx l @ [cmd] \<and> radio l' = radio l \<and> rssi l' = rssi l \<and> snr l' = snr l"
  by (auto simp add: sendCommand_def waitForResponse_def Let_def split: prod.splits)

lemma transmit_fields:
  assumes "length data \<le> 240"
  shows "tx (snd (transmit l data)) =
           tx l @ [take 559 (''AT+SEND=1,'' @ fmt_dec (length data * 2) @ '','' @ hex_of data)]"
    and "radio (snd (transmit l data)) = radio l"
    and "rssi (snd (transmit l data)) = rssi l"
    and "snr (snd (transmit l data)) = snr l"
  using assms
  by (auto simp add: transmit_def Let_def split: prod.splits dest: sendCommand_fields)

lemma transmit_too_long: "length data > 240 \<Longrightarrow> transmit l data = (False, l)"
  by (simp add: transmit_def)

lemma fmt_dec_288: "fmt_dec 288 = ''288''"
  by code_simp

lemma fmt_dec_66: "fmt_dec 66 = ''66''"
  by code_simp

lemma transmit_144:
  assumes "length data = 144"
  shows "tx (snd (transmit l data)) = tx l @ [''AT+SEND=1,288,'' @ hex_of data]"
  using assms transmit_fields(1) [of data l]
  by (simp add: fmt_dec_288 length_hex_of)

lemma transmit_33:
  assumes "length data = 33"
  shows "tx (snd (transmit l data)) = tx l @ [''AT+SEND=1,66,'' @ hex_of data]"
  using assms transmit_fields(1) [of data l]
  by (simp add: fmt_dec_66 length_hex_of)

lemma sha_updates_absorbs:
  "sha_updates hw ctx data = Some c \<Longrightarrow> c = ctx @ data"
proof (induction hw ctx data rule: sha_updates.induct)
  case (1 hw ctx data)
  show ?case
  proof (cases "length data > 64")
    case True
    with "1.prems" have u: "sha256Update hw ctx (take 64 data)"
      and r: "sha_updates hw (ctx @ take 64 data) (drop 64 data) = Some c"
      by (simp_all add: sha_updates.simps [of hw ctx data] split: if_splits)
    from "1.IH" [OF True u r] show ?thesis by simp
  next
    case False
    with "1.prems" show ?thesis
      by (simp add: sha_updates.simps [of hw ctx data] split: if_splits)
  qed
qed

lemma sha_updates_accepts:
  "(\<And>c ch. sha256Update hw c ch) \<Longrightarrow> sha_updates hw ctx data = Some (ctx @ data)"
proof (induction hw ctx data rule: sha_updates.induct)
  case (1 hw ctx data)
  show ?case
  proof (cases "length data > 64")
    case True
    have "sha_updates hw (ctx @ take 64 data) (drop 64 data) = Some ((ctx @ take 64 data) @ drop 64 data)"
      using "1.IH" [OF True] "1.prems" by blast
    with True "1.prems" show ?thesis
      by (simp add: sha_updates.simps [of hw ctx data])
  next
    case False
    with "1.prems" show ?thesis
      by (simp add: sha_updates.simps [of hw ctx data])
  qed
qed

lemma sha256_digest: "sha256 se data = Some h \<Longrightarrow> sha256End (atecc se) data = Some h"
  by (auto simp add: sha256_def split: if_splits option.splits dest: sha_updates_absorbs)

lemma sha256_succeeds:
  "initialized se \<Longrightarrow> sha256Start (atecc se) \<Longrightarrow> (\<And>c ch. sha256Update (atecc se) c ch) \<Longrightarrow>
     sha256 se data = sha256End (atecc se) data"
  using sha_updates_accepts [of "atecc se" "[]" data]
  by (simp add: sha256_def)

section \<open>The telemetry cycle\<close>

lemma length_pre_signature_fields:
  "length (commitment p) = 32 \<Longrightarrow> length (nullifier p) = 32 \<Longrightarrow>
     length (pre_signature_fields p) = 80"
  by (simp add: pre_signature_fields_def)

lemma packet_image_split:
  assumes "length (commitment p) = 32" "length (nullifier p) = 32" "length (signature p) = 64"
  shows "packet_image p = pre_signature_fields p @ signature p"
  using packet_image_concat [OF assms] by (simp add: pre_signature_fields_def)

lemma unsigned_packet_eq:
  assumes "length (commitmentBytes fw) = 32" "length nf = 32"
  shows "unsigned_packet fw t nf = telemetry_packet fw t nf (replicate 64 0)"
  using assms by (simp add: unsigned_packet_def telemetry_packet_def memcpy_whole)

lemma pre_signature_telemetry:
  "pre_signature_fields (telemetry_packet fw t nf sig) = telemetry_fields fw t nf"
  by (simp add: pre_signature_fields_def telemetry_packet_def telemetry_fields_def)

lemma signed_bytes:
  assumes "length (commitmentBytes fw) = 32" "length nf = 32"
  shows "take (sizeof_DataPacket - 64) (packet_image (unsigned_packet fw t nf))
           = telemetry_fields fw t nf"
proof -
  let ?p = "telemetry_packet fw t nf (replicate 64 0)"
  have l: "length (commitment ?p) = 32" "length (nullifier ?p) = 32" "length (signature ?p) = 64"
    using assms by (simp_all add: telemetry_packet_def)
  have "packet_image ?p = pre_signature_fields ?p @ signature ?p"
    by (rule packet_image_split [OF l])
  moreover have "length (pre_signature_fields ?p) = 80"
    by (rule length_pre_signature_fields [OF l(1,2)])
  ultimately have "take (sizeof_DataPacket - 64) (packet_image ?p) = pre_signature_fields ?p"
    by (simp add: sizeof_DataPacket_144)
  then show ?thesis
    by (simp add: unsigned_packet_eq [OF assms] pre_signature_telemetry)
qed

lemma collect_result:
  assumes cb: "length (commitmentBytes fw) = 32"
    and nf: "computeNullifier (secureElement fw) (currentEpoch fw) = Some nf" "length nf = 32"
    and sg: "sign (secureElement fw) (telemetry_fields fw t nf) = Some sig"
            "length sig = 64"
  shows "collectAndTransmitData fw t =
           fw\<lparr>loraComm := snd (transmit (loraComm fw) (packet_image (telemetry_packet fw t nf sig)))\<rparr>"
proof -
  let ?p = "telemetry_packet fw t nf sig"
  have l: "length (commitment ?p) = 32" "length (nullifier ?p) = 32" "length (signature ?p) = 64"
    using cb nf sg by (simp_all add: telemetry_packet_def)
  have im: "length (packet_image ?p) = 144"
    using packet_image_split [OF l] length_pre_signature_fields [OF l(1,2)] l(3) by simp
  have fin: "(unsigned_packet fw t nf)\<lparr>signature := memcpy (signature (unsigned_packet fw t nf)) 0 sig 64\<rparr> = ?p"
    using cb nf(2) sg(2)
    by (simp add: unsigned_packet_eq telemetry_packet_def memcpy_whole)
  have tk: "take sizeof_DataPacket (packet_image ?p) = packet_image ?p"
    using im by (simp add: sizeof_DataPacket_144)
  show ?thesis
    using nf(1) sg(1)
    by (simp add: collectAndTransmitData_def signed_bytes [OF cb nf(2)] fin tk
        Let_def split: prod.splits)
qed

lemma collect_sign_fails:
  assumes cb: "length (commitmentBytes fw) = 32"
    and nf: "computeNullifier (secureElement fw) (currentEpoch fw) = Some nf" "length nf = 32"
    and sg: "sign (secureElement fw) (telemetry_fields fw t nf) = None"
  shows "collectAndTransmitData fw t = fw"
  using nf(1) sg
  by (simp add: collectAndTransmitData_def signed_bytes [OF cb nf(2)] Let_def)

lemma collect_tx:
  assumes cb: "length (commitmentBytes fw) = 32"
    and nf: "computeNullifier (secureElement fw) (currentEpoch fw) = Some nf" "length nf = 32"
    and sg: "sign (secureElement fw) (telemetry_fields fw t nf) = Some sig"
            "length sig = 64"
  shows "tx (loraComm (collectAndTransmitData fw t)) =
           tx (loraComm fw) @ [''AT+SEND=1,288,'' @ hex_of (packet_image (telemetry_packet fw t nf sig))]"
proof -
  let ?p = "telemetry_packet fw t nf sig"
  have l: "length (commitment ?p) = 32" "length (nullifier ?p) = 32" "length (signature ?p) = 64"
    using cb nf sg by (simp_all add: telemetry_packet_def)
  have im: "length (packet_image ?p) = 144"
    using packet_image_split [OF l] length_pre_signature_fields [OF l(1,2)] l(3) by simp
  show ?thesis
    by (simp add: collect_result [OF assms] transmit_144 [OF im])
qed

lemma telemetry_image:
  assumes "length (commitmentBytes fw) = 32" "length nf = 32" "length sig = 64"
  shows "packet_image (telemetry_packet fw t nf sig) = telemetry_fields fw t nf @ sig"
    and "length (packet_image (telemetry_packet fw t nf sig)) = 144"
proof -
  let ?p = "telemetry_packet fw t nf sig"
  have l: "length (commitment ?p) = 32" "length (nullifier ?p) = 32" "length (signature ?p) = 64"
    using assms by (simp_all add: telemetry_packet_def)
  show "packet_image ?p = telemetry_fields fw t nf @ sig"
    using packet_image_split [OF l] by (simp add: pre_signature_telemetry) (simp add: telemetry_packet_def)
  then show "length (packet_image ?p) = 144"
    using assms by (simp add: telemetry_fields_def)
qed

lemma computeNullifier_mac:
  "computeNullifier se e =
     (if initialized se
      then map_option (take 32) (macData (atecc se) (bytes_of_string NULLIFIER_DOMAIN @ spec_be32 e))
      else None)"
proof -
  have len: "length (epoch_bytes e) = 4" by (simp add: epoch_bytes_def)
  have dl: "length (bytes_of_string NULLIFIER_DOMAIN) = 19"
    by (simp add: bytes_of_string_def NULLIFIER_DOMAIN_def)
  have r: "replicate 64 (0::u8) = replicate 19 0 @ replicate 4 0 @ replicate 41 0"
  proof -
    have "(64::nat) = 19 + (4 + 41)" by simp
    then show ?thesis by (simp only: replicate_add)
  qed
  have "take (19 + 4) (memcpy (memcpy (memset (replicate 64 0) 0 64) 0 (bytes_of_string NULLIFIER_DOMAIN) 19)
          19 (epoch_bytes e) 4) = bytes_of_string NULLIFIER_DOMAIN @ epoch_bytes e"
    unfolding memset_def
    apply (simp only: drop_replicate diff_self_eq_0 replicate_0 append_Nil2)
    unfolding r
    by (simp add: memcpy_here memcpy_skip dl len)
  then show ?thesis
    by (simp add: computeNullifier_def Let_def dl epoch_bytes_be32 split: option.splits)
qed

section \<open>The example device evaluated\<close>

lemma demo_nullifier_computed:
  "computeNullifier (secureElement demo_fw) (currentEpoch demo_fw) = Some demo_nullifier"
  by code_simp

lemma demo_signature_computed:
  "sign (secureElement demo_fw) (telemetry_fields demo_fw demo_tick demo_nullifier) = Some demo_signature"
  by code_simp

lemma nosign_nullifier_computed:
  "computeNullifier (secureElement nosign_fw) (currentEpoch nosign_fw) = Some demo_nullifier"
  by code_simp

lemma nosign_refuses:
  "sign (secureElement nosign_fw) (telemetry_fields nosign_fw demo_tick demo_nullifier) = None"
  by code_simp

lemma demo_lengths:
  "length (commitmentBytes demo_fw) = 32" "length demo_nullifier = 32" "length demo_signature = 64"
  "length (commitmentBytes nosign_fw) = 32"
  by code_simp+

text \<open>
  Claim C4 as stated: the packet built and transmitted in a telemetry cycle is exactly 168
  bytes. On the example device the structure has 144 bytes, and the one command line of
  the cycle carries the 14 characters \<open>AT+SEND=1,288,\<close> and 288 hexadecimal digits.
\<close>

theorem C4_counterexample:
  "sizeof_DataPacket \<noteq> 168 \<and>
   map length (tx (loraComm (collectAndTransmitData demo_fw demo_tick))) = [14 + 2 * 144]"
  by code_simp

text \<open>
  Claim C4, amended: the packet built and transmitted in a telemetry cycle is exactly 144
  bytes (32 + 4 + 4 + 4 + 4 + 32 + 64); every member sits at the sum of the sizes of the
  members before it, so there is no padding and the object is commitment, temperature,
  humidity, soilMoisture, timestamp, nullifier, signature in this order; and the whole
  object is the payload handed to the radio.
\<close>

theorem C4_packet_is_144_bytes:
  assumes "length (commitmentBytes fw) = 32"
    and "computeNullifier (secureElement fw) (currentEpoch fw) = Some nf" and "length nf = 32"
    and "sign (secureElement fw) (telemetry_fields fw t nf) = Some sig" and "length sig = 64"
  shows "sizeof_DataPacket = 144
     \<and> member_offsets 0 DataPacket_members = [0, 32, 32 + 4, 32 + 4 + 4, 32 + 4 + 4 + 4,
           32 + 4 + 4 + 4 + 4, 32 + 4 + 4 + 4 + 4 + 32]
     \<and> packet_image (telemetry_packet fw t nf sig) =
           commitmentBytes fw @ le32 (sd_temperature (reading t)) @ le32 (sd_humidity (reading t))
             @ le32 (sd_soilMoisture (reading t)) @ le32 (stamp t) @ nf @ sig
     \<and> length (packet_image (telemetry_packet fw t nf sig)) = 144
     \<and> collectAndTransmitData fw t =
           fw\<lparr>loraComm := snd (transmit (loraComm fw) (packet_image (telemetry_packet fw t nf sig)))\<rparr>
     \<and> tx (loraComm (collectAndTransmitData fw t)) =
           tx (loraComm fw) @ [''AT+SEND=1,288,'' @ hex_of (packet_image (telemetry_packet fw t nf sig))]"
  using telemetry_image [OF assms(1,3,5), of t] collect_result [OF assms] collect_tx [OF assms]
  by (simp add: sizeof_DataPacket_144 DataPacket_offsets telemetry_fields_def)

text \<open>The theorem for claim C4 at the example device.\<close>

theorem C4_witness:
  "length (packet_image (telemetry_packet demo_fw demo_tick demo_nullifier demo_signature)) = 144
   \<and> tx (loraComm (collectAndTransmitData demo_fw demo_tick)) =
        [''AT+SEND=1,288,'' @ hex_of (packet_image (telemetry_packet demo_fw demo_tick demo_nullifier demo_signature))]"
proof -
  have t: "tx (loraComm demo_fw) = []" by code_simp
  note th = C4_packet_is_144_bytes [OF demo_lengths(1) demo_nullifier_computed demo_lengths(2)
        demo_signature_computed demo_lengths(3)]
  from th have a: "length (packet_image (telemetry_packet demo_fw demo_tick demo_nullifier demo_signature)) = 144"
    by blast
  from th have "tx (loraComm (collectAndTransmitData demo_fw demo_tick)) =
        tx (loraComm demo_fw) @ [''AT+SEND=1,288,'' @ hex_of (packet_image (telemetry_packet demo_fw demo_tick demo_nullifier demo_signature))]"
    by blast
  then have b: "tx (loraComm (collectAndTransmitData demo_fw demo_tick)) =
        [''AT+SEND=1,288,'' @ hex_of (packet_image (telemetry_packet demo_fw demo_tick demo_nullifier demo_signature))]"
    unfolding t by (simp only: append_Nil)
  from a b show ?thesis ..
qed

section \<open>Signing and the nullifier\<close>

text \<open>
  Claim C8: if signing fails during a telemetry cycle, nothing is transmitted (the cycle
  leaves the whole state, and so the list of written command lines, as it was); when
  signing succeeds, what was signed is the byte image of the fields before the signature,
  commitment through nullifier, which is the first \<open>sizeof(DataPacket) - 64\<close> bytes
  of the transmitted object, and the signature follows it.
\<close>

theorem C8_signature_covers_pre_signature_fields:
  assumes "length (commitmentBytes fw) = 32"
    and "computeNullifier (secureElement fw) (currentEpoch fw) = Some nf" and "length nf = 32"
  shows "(sign (secureElement fw) (telemetry_fields fw t nf) = None \<longrightarrow>
            collectAndTransmitData fw t = fw \<and>
            tx (loraComm (collectAndTransmitData fw t)) = tx (loraComm fw))
     \<and> (\<forall>sig. sign (secureElement fw) (telemetry_fields fw t nf) = Some sig \<and> length sig = 64 \<longrightarrow>
            tx (loraComm (collectAndTransmitData fw t)) =
              tx (loraComm fw) @ [''AT+SEND=1,288,'' @ hex_of (telemetry_fields fw t nf @ sig)]
          \<and> packet_image (telemetry_packet fw t nf sig) = telemetry_fields fw t nf @ sig
          \<and> take (sizeof_DataPacket - 64) (packet_image (telemetry_packet fw t nf sig))
                = telemetry_fields fw t nf)
     \<and> length (telemetry_fields fw t nf) = sizeof_DataPacket - 64"
proof (intro conjI impI allI)
  assume "sign (secureElement fw) (telemetry_fields fw t nf) = None"
  then show c: "collectAndTransmitData fw t = fw"
    by (rule collect_sign_fails [OF assms])
  show "tx (loraComm (collectAndTransmitData fw t)) = tx (loraComm fw)"
    by (simp only: c)
next
  fix sig
  assume s: "sign (secureElement fw) (telemetry_fields fw t nf) = Some sig \<and> length sig = 64"
  then have s1: "sign (secureElement fw) (telemetry_fields fw t nf) = Some sig"
    and s2: "length sig = 64" by simp_all
  have im: "packet_image (telemetry_packet fw t nf sig) = telemetry_fields fw t nf @ sig"
    by (rule telemetry_image(1) [OF assms(1,3) s2])
  show "tx (loraComm (collectAndTransmitData fw t)) =
      tx (loraComm fw) @ [''AT+SEND=1,288,'' @ hex_of (telemetry_fields fw t nf @ sig)]"
    using collect_tx [OF assms s1 s2] by (simp only: im)
  show "packet_image (telemetry_packet fw t nf sig) = telemetry_fields fw t nf @ sig"
    by (rule im)
  show "take (sizeof_DataPacket - 64) (packet_image (telemetry_packet fw t nf sig))
                = telemetry_fields fw t nf"
    using assms(1,3) by (simp add: im sizeof_DataPacket_144 telemetry_fields_def)
next
  show "length (telemetry_fields fw t nf) = sizeof_DataPacket - 64"
    using assms(1,3) by (simp add: sizeof_DataPacket_144 telemetry_fields_def)
qed

text \<open>
  The theorem for claim C8 at the example device, once with a chip that refuses to sign
  and once with one that signs.
\<close>

theorem C8_witness:
  "(collectAndTransmitData nosign_fw demo_tick = nosign_fw
    \<and> tx (loraComm (collectAndTransmitData nosign_fw demo_tick)) = tx (loraComm nosign_fw))
   \<and> tx (loraComm (collectAndTransmitData demo_fw demo_tick)) =
        tx (loraComm demo_fw) @
          [''AT+SEND=1,288,'' @ hex_of (telemetry_fields demo_fw demo_tick demo_nullifier @ demo_signature)]"
proof -
  note f = C8_signature_covers_pre_signature_fields
      [OF demo_lengths(4) nosign_nullifier_computed demo_lengths(2), of demo_tick]
  note g = C8_signature_covers_pre_signature_fields
      [OF demo_lengths(1) demo_nullifier_computed demo_lengths(2), of demo_tick]
  note a = f [THEN conjunct1, THEN mp, OF nosign_refuses]
  note b = g [THEN conjunct2, THEN conjunct1, THEN spec, THEN mp,
      OF conjI [OF demo_signature_computed demo_lengths(3)], THEN conjunct1]
  from a b show ?thesis by (rule conjI)
qed


text \<open>
  Claim C6: for every epoch the nullifier is the chip's MAC of the tag
  \<open>msingi:nullifier:v1\<close> followed by the epoch as four big-endian bytes (23 bytes in
  all), for epoch 5 the bytes 00 00 00 05; and this value is the nullifier member of the
  packet that the telemetry cycle transmits.
\<close>

theorem C6_nullifier_is_mac_of_tag_and_epoch:
  "computeNullifier se e =
     (if initialized se
      then map_option (take 32)
             (macData (atecc se) (bytes_of_string ''msingi:nullifier:v1'' @ spec_be32 e))
      else None)
   \<and> spec_be32 5 = [0x00, 0x00, 0x00, 0x05]
   \<and> length (bytes_of_string ''msingi:nullifier:v1'' @ spec_be32 e) = 23
   \<and> (initialized (secureElement fw) \<and> length (commitmentBytes fw) = 32
        \<and> macData (atecc (secureElement fw))
             (bytes_of_string ''msingi:nullifier:v1'' @ spec_be32 (currentEpoch fw)) = Some mac
        \<and> length mac = 32
        \<and> sign (secureElement fw) (telemetry_fields fw t mac) = Some sig \<and> length sig = 64
      \<longrightarrow> nullifier (telemetry_packet fw t mac sig) = mac
        \<and> tx (loraComm (collectAndTransmitData fw t)) =
            tx (loraComm fw) @ [''AT+SEND=1,288,'' @ hex_of (packet_image (telemetry_packet fw t mac sig))])"
proof (intro conjI impI)
  show "computeNullifier se e =
     (if initialized se
      then map_option (take 32)
             (macData (atecc se) (bytes_of_string ''msingi:nullifier:v1'' @ spec_be32 e))
      else None)"
    using computeNullifier_mac [of se e] by (simp only: NULLIFIER_DOMAIN_def)
  show "spec_be32 5 = [0x00, 0x00, 0x00, 0x05]"
    by (simp add: spec_be32_def)
  show "length (bytes_of_string ''msingi:nullifier:v1'' @ spec_be32 e) = 23"
    by (simp add: spec_be32_def bytes_of_string_def)
next
  assume h: "initialized (secureElement fw) \<and> length (commitmentBytes fw) = 32
        \<and> macData (atecc (secureElement fw))
             (bytes_of_string ''msingi:nullifier:v1'' @ spec_be32 (currentEpoch fw)) = Some mac
        \<and> length mac = 32
        \<and> sign (secureElement fw) (telemetry_fields fw t mac) = Some sig \<and> length sig = 64"
  then have nf: "computeNullifier (secureElement fw) (currentEpoch fw) = Some mac"
    by (simp add: computeNullifier_mac NULLIFIER_DOMAIN_def)
  show "nullifier (telemetry_packet fw t mac sig) = mac"
    by (simp add: telemetry_packet_def)
  show "tx (loraComm (collectAndTransmitData fw t)) =
            tx (loraComm fw) @ [''AT+SEND=1,288,'' @ hex_of (packet_image (telemetry_packet fw t mac sig))]"
    using h by (intro collect_tx nf) simp_all
qed

text \<open>The theorem for claim C6 at the example device, for epoch 5 and for the cycle.\<close>

theorem C6_witness:
  "computeNullifier (secureElement demo_fw) 5 =
     Some (bytes_of_string ''msingi:nullifier:v1'' @ [0x00, 0x00, 0x00, 0x05] @ replicate 9 0)
   \<and> tx (loraComm (collectAndTransmitData demo_fw demo_tick)) =
        tx (loraComm demo_fw) @
          [''AT+SEND=1,288,'' @ hex_of (packet_image (telemetry_packet demo_fw demo_tick demo_nullifier demo_signature))]"
proof -
  note th = C6_nullifier_is_mac_of_tag_and_epoch
      [of "secureElement demo_fw" 5 demo_fw demo_nullifier demo_tick demo_signature]
  have i: "initialized (secureElement demo_fw)" by code_simp
  have m: "macData (atecc (secureElement demo_fw))
             (bytes_of_string ''msingi:nullifier:v1'' @ spec_be32 (currentEpoch demo_fw)) = Some demo_nullifier"
    by (simp add: demo_fw_def demo_chip_def spec_be32_def bytes_of_string_def demo_nullifier_def)
  have m5: "map_option (take 32) (macData (atecc (secureElement demo_fw))
             (bytes_of_string ''msingi:nullifier:v1'' @ [0x00, 0x00, 0x00, 0x05]))
      = Some (bytes_of_string ''msingi:nullifier:v1'' @ [0x00, 0x00, 0x00, 0x05] @ replicate 9 0)"
    by code_simp
  have a: "computeNullifier (secureElement demo_fw) 5 =
     Some (bytes_of_string ''msingi:nullifier:v1'' @ [0x00, 0x00, 0x00, 0x05] @ replicate 9 0)"
    using th [THEN conjunct1] i m5
    by (simp only: if_True th [THEN conjunct2, THEN conjunct1])
  note b = th [THEN conjunct2, THEN conjunct2, THEN conjunct2, THEN mp,
      OF conjI [OF i conjI [OF demo_lengths(1) conjI [OF m conjI [OF demo_lengths(2)
        conjI [OF demo_signature_computed demo_lengths(3)]]]]], THEN conjunct2]
  from a b show ?thesis by (rule conjI)
qed


section \<open>The commitment\<close>

lemma commitment_preimage_spec:
  assumes "length p0 = 128" "length pk = 64" "length r = 32"
  shows "commitment_preimage p0 pk r = spec_pad32 ''msingi:commitment:v1'' @ pk @ r"
proof -
  have dl: "length (bytes_of_string COMMITMENT_DOMAIN) = 20"
    by (simp add: bytes_of_string_def COMMITMENT_DOMAIN_def)
  define b where "b = take 64 (drop 32 p0)"
  define c where "c = drop 96 p0"
  have lb: "length b = 64" and lc: "length c = 32"
    using assms(1) by (simp_all add: b_def c_def)
  have "drop 32 p0 = take 64 (drop 32 p0) @ drop 64 (drop 32 p0)"
    by (simp only: append_take_drop_id)
  then have d32: "drop 32 p0 = b @ c"
    by (simp add: b_def c_def)
  have r32: "replicate 32 (0::u8) = replicate 20 0 @ replicate 12 0"
  proof -
    have "(32::nat) = 20 + 12" by simp
    then show ?thesis by (simp only: replicate_add)
  qed
  have ms: "memset p0 0 32 = replicate 20 0 @ replicate 12 0 @ b @ c"
    unfolding memset_def d32 by (simp only: r32 append_assoc)
  have "commitment_preimage p0 pk r =
      memcpy (memcpy (memcpy (memset p0 0 32) 0 (bytes_of_string COMMITMENT_DOMAIN) 20)
        32 pk 64) 96 r 32"
    by (simp add: commitment_preimage_def Let_def dl)
  also have "\<dots> = bytes_of_string COMMITMENT_DOMAIN @ replicate 12 0 @ pk @ r"
    unfolding ms
    using assms(2,3) lb lc by (simp add: memcpy_here memcpy_skip memcpy_whole dl)
  also have "\<dots> = spec_pad32 ''msingi:commitment:v1'' @ pk @ r"
    by (simp add: spec_pad32_def COMMITMENT_DOMAIN_def)
  finally show ?thesis .
qed

lemma length_spec_preimage:
  "length pk = 64 \<Longrightarrow> length r = 32 \<Longrightarrow> length (spec_pad32 ''msingi:commitment:v1'' @ pk @ r) = 128"
  by (simp add: spec_pad32_def bytes_of_string_def)

lemma computeCommitment_spec:
  assumes "length pk = 64" "length r = 32"
    and "getPublicKey (secureElement fw) SLOT_DEVICE_KEY = Some pk"
    and "blindingFactor (braceClient fw) = r"
  shows "computeCommitment fw =
     (case sha256 (secureElement fw) (spec_pad32 ''msingi:commitment:v1'' @ pk @ r) of
        None \<Rightarrow> (False, fw)
      | Some h \<Rightarrow> (True, fw\<lparr>braceClient := (braceClient fw)\<lparr>bc_commitment := h\<rparr>\<rparr>))"
proof -
  have "length (map (stack fw) [0..<128]) = 128" by simp
  from commitment_preimage_spec [OF this assms(1,2)]
  show ?thesis
    using assms(3,4) length_spec_preimage [OF assms(1,2)]
    by (simp add: computeCommitment_def)
qed

lemma computeCommitment_stack:
  assumes "length pk = 64" "length r = 32"
    and "getPublicKey (secureElement fw) SLOT_DEVICE_KEY = Some pk"
    and "blindingFactor (braceClient fw) = r"
  shows "computeCommitment (fw\<lparr>stack := s\<rparr>) =
           (fst (computeCommitment fw), (snd (computeCommitment fw))\<lparr>stack := s\<rparr>)"
proof -
  have g: "getPublicKey (secureElement (fw\<lparr>stack := s\<rparr>)) SLOT_DEVICE_KEY = Some pk"
    and b: "blindingFactor (braceClient (fw\<lparr>stack := s\<rparr>)) = r"
    using assms(3,4) by simp_all
  show ?thesis
    unfolding computeCommitment_spec [OF assms] computeCommitment_spec [OF assms(1,2) g b]
    by (simp split: option.splits)
qed

lemma computeCommitment_again:
  "computeCommitment (snd (computeCommitment fw)) = computeCommitment fw"
  by (auto simp add: computeCommitment_def split: option.splits)

text \<open>
  Claim C5: for every 64-byte public key and 32-byte blinding factor, the array that
  \<open>computeCommitment\<close> fills holds, whatever its 128 bytes were before, the tag
  \<open>msingi:commitment:v1\<close> zero-padded to 32 bytes, the public key, the blinding
  factor, 128 bytes in all; a computed commitment is the chip's SHA-256 digest of exactly
  these bytes; the computation succeeds whenever the hash engine does; its result does not
  depend on what the array's storage held; and computing again from the resulting state
  gives the same result.
\<close>

theorem C5_commitment_is_sha256_of_tag_key_blinding:
  assumes "length pk = 64" and "length r = 32"
    and "getPublicKey (secureElement fw) SLOT_DEVICE_KEY = Some pk"
    and "blindingFactor (braceClient fw) = r"
  shows "length (spec_pad32 ''msingi:commitment:v1'' @ pk @ r) = 128
     \<and> (\<forall>preimage0. length preimage0 = 128 \<longrightarrow>
            commitment_preimage preimage0 pk r = spec_pad32 ''msingi:commitment:v1'' @ pk @ r)
     \<and> (\<forall>s. computeCommitment (fw\<lparr>stack := s\<rparr>) =
              (fst (computeCommitment fw), (snd (computeCommitment fw))\<lparr>stack := s\<rparr>))
     \<and> (\<forall>fw'. computeCommitment fw = (True, fw') \<longrightarrow>
            sha256End (atecc (secureElement fw)) (spec_pad32 ''msingi:commitment:v1'' @ pk @ r)
              = Some (bc_commitment (braceClient fw')))
     \<and> (\<forall>h. sha256Start (atecc (secureElement fw))
            \<and> (\<forall>c ch. sha256Update (atecc (secureElement fw)) c ch)
            \<and> sha256End (atecc (secureElement fw)) (spec_pad32 ''msingi:commitment:v1'' @ pk @ r) = Some h
          \<longrightarrow> computeCommitment fw = (True, fw\<lparr>braceClient := (braceClient fw)\<lparr>bc_commitment := h\<rparr>\<rparr>))
     \<and> computeCommitment (snd (computeCommitment fw)) = computeCommitment fw"
proof (intro conjI allI impI)
  show "length (spec_pad32 ''msingi:commitment:v1'' @ pk @ r) = 128"
    by (rule length_spec_preimage [OF assms(1,2)])
next
  fix preimage0 :: "u8 list"
  assume "length preimage0 = 128"
  then show "commitment_preimage preimage0 pk r = spec_pad32 ''msingi:commitment:v1'' @ pk @ r"
    by (rule commitment_preimage_spec [OF _ assms(1,2)])
next
  fix s
  show "computeCommitment (fw\<lparr>stack := s\<rparr>) =
          (fst (computeCommitment fw), (snd (computeCommitment fw))\<lparr>stack := s\<rparr>)"
    by (rule computeCommitment_stack [OF assms])
next
  fix fw'
  assume "computeCommitment fw = (True, fw')"
  then show "sha256End (atecc (secureElement fw)) (spec_pad32 ''msingi:commitment:v1'' @ pk @ r)
              = Some (bc_commitment (braceClient fw'))"
    unfolding computeCommitment_spec [OF assms]
    by (auto split: option.splits dest: sha256_digest)
next
  fix h
  assume h: "sha256Start (atecc (secureElement fw))
            \<and> (\<forall>c ch. sha256Update (atecc (secureElement fw)) c ch)
            \<and> sha256End (atecc (secureElement fw)) (spec_pad32 ''msingi:commitment:v1'' @ pk @ r) = Some h"
  have i: "initialized (secureElement fw)"
    using assms(3) by (simp add: getPublicKey_def split: if_splits)
  have "sha256 (secureElement fw) (spec_pad32 ''msingi:commitment:v1'' @ pk @ r) = Some h"
    using h sha256_succeeds [OF i, of "spec_pad32 ''msingi:commitment:v1'' @ pk @ r"] by simp
  then show "computeCommitment fw = (True, fw\<lparr>braceClient := (braceClient fw)\<lparr>bc_commitment := h\<rparr>\<rparr>)"
    unfolding computeCommitment_spec [OF assms] by simp
next
  show "computeCommitment (snd (computeCommitment fw)) = computeCommitment fw"
    by (rule computeCommitment_again)
qed

text \<open>
  The theorem for claim C5 at the example device with a blinding factor in place: an array
  that held \<open>0xEE\<close> in every byte, the device computed with, and the same device over a
  storage of \<open>0x55\<close>.
\<close>

theorem C5_witness:
  "length (spec_pad32 ''msingi:commitment:v1'' @ replicate 64 0xAA @ replicate 32 0x11) = 128
   \<and> commitment_preimage (replicate 128 0xEE) (replicate 64 0xAA) (replicate 32 0x11)
       = spec_pad32 ''msingi:commitment:v1'' @ replicate 64 0xAA @ replicate 32 0x11
   \<and> computeCommitment (demo_blinded\<lparr>stack := (\<lambda>i. 0x55)\<rparr>) =
        (fst (computeCommitment demo_blinded),
         (snd (computeCommitment demo_blinded))\<lparr>stack := (\<lambda>i. 0x55)\<rparr>)
   \<and> computeCommitment demo_blinded =
        (True, demo_blinded\<lparr>braceClient := (braceClient demo_blinded)\<lparr>bc_commitment := replicate 32 0x11\<rparr>\<rparr>)
   \<and> computeCommitment (snd (computeCommitment demo_blinded)) = computeCommitment demo_blinded"
proof -
  have pk: "length (replicate 64 (0xAA::u8)) = 64" and r: "length (replicate 32 (0x11::u8)) = 32"
    by simp_all
  have g: "getPublicKey (secureElement demo_blinded) SLOT_DEVICE_KEY = Some (replicate 64 0xAA)"
    by (simp add: getPublicKey_def demo_blinded_def demo_fw_def demo_chip_def SLOT_DEVICE_KEY_def)
  have b: "blindingFactor (braceClient demo_blinded) = replicate 32 0x11"
    by (simp add: demo_blinded_def)
  have e: "sha256Start (atecc (secureElement demo_blinded))
            \<and> (\<forall>c ch. sha256Update (atecc (secureElement demo_blinded)) c ch)
            \<and> sha256End (atecc (secureElement demo_blinded))
                 (spec_pad32 ''msingi:commitment:v1'' @ replicate 64 0xAA @ replicate 32 0x11)
                = Some (replicate 32 0x11)"
    by (simp add: demo_blinded_def demo_fw_def demo_chip_def)
  have p: "length (replicate 128 (0xEE::u8)) = 128"
    by simp
  note th = C5_commitment_is_sha256_of_tag_key_blinding [OF pk r g b]
  note rest = th [THEN conjunct2, THEN conjunct2, THEN conjunct2]
  from th [THEN conjunct1]
    th [THEN conjunct2, THEN conjunct1, THEN spec, THEN mp, OF p]
    th [THEN conjunct2, THEN conjunct2, THEN conjunct1, THEN spec, of "\<lambda>i. 0x55"]
    rest [THEN conjunct2, THEN conjunct1, THEN spec, THEN mp, OF e]
    rest [THEN conjunct2, THEN conjunct2]
  show ?thesis by (intro conjI)
qed

section \<open>Enrollment\<close>

lemma random_one_block:
  assumes "initialized se" "randoms (atecc se) = Some r # rs" "length r = 32" "length buf = 32"
  shows "random se buf 32 = (True, r, se\<lparr>atecc := (atecc se)\<lparr>randoms := rs\<rparr>\<rparr>)"
proof -
  have "random_loop (Some r # rs) buf 0 32 = random_loop rs (memcpy buf 0 r 32) 32 0"
    by (subst random_loop.simps) simp
  also have "\<dots> = (True, r, rs)"
    using assms(3,4) by (subst random_loop.simps) (simp add: memcpy_whole)
  finally show ?thesis
    using assms(1,2) by (simp add: random_def)
qed

lemma sha_updates_randoms:
  "sha_updates (hw\<lparr>randoms := rs\<rparr>) ctx d = sha_updates hw ctx d"
proof (induction hw ctx d rule: sha_updates.induct)
  case (1 hw ctx data)
  show ?case
    using "1.IH"
    by (subst sha_updates.simps, subst (2) sha_updates.simps) simp
qed

lemma sha256_randoms:
  "sha256 (se\<lparr>atecc := (atecc se)\<lparr>randoms := rs\<rparr>\<rparr>) d = sha256 se d"
  by (simp add: sha256_def sha_updates_randoms split: option.splits)

lemma getPublicKey_randoms:
  "getPublicKey (se\<lparr>atecc := (atecc se)\<lparr>randoms := rs\<rparr>\<rparr>) slot = getPublicKey se slot"
  by (simp add: getPublicKey_def)

lemma fmt_02X_zero: "fmt_02X 0 = ''00''"
  by code_simp

lemma hex_of_Cons0: "hex_of (0 # h) = ''00'' @ hex_of h"
  by (simp add: hex_of_def fmt_02X_zero)

lemma transmit_acknowledged:
  assumes "length data \<le> 240"
    and "radio l (take 559 (''AT+SEND=1,'' @ fmt_dec (length data * 2) @ '','' @ hex_of data))
           = ''+OK'' @ [CHR 0x0D, CHR 0x0A]"
  shows "fst (transmit l data)"
  using assms
  by (simp add: transmit_def sendCommand_def waitForResponse_def cstr_def NUL_def Let_def)


lemma registerDevice_succeeds:
  assumes ptr: "has_se (braceClient fw)" "has_lora (braceClient fw)"
    and ini: "initialized (secureElement fw)"
    and rnd: "randoms (atecc (secureElement fw)) = Some r # rs" "length r = 32"
             "length (blindingFactor (braceClient fw)) = 32"
    and key: "generatePublicKey (atecc (secureElement fw)) SLOT_DEVICE_KEY = Some pk" "length pk = 64"
    and hsh: "sha256 (secureElement fw) (spec_pad32 ''msingi:commitment:v1'' @ pk @ r) = Some h"
             "length h = 32"
  shows "registerDevice fw =
     (fst (transmit (loraComm fw) (0 # h)),
      fw\<lparr>secureElement := (secureElement fw)\<lparr>atecc := (atecc (secureElement fw))\<lparr>randoms := rs\<rparr>\<rparr>,
         braceClient := (braceClient fw)\<lparr>blindingFactor := r, bc_commitment := h\<rparr>,
         loraComm := snd (transmit (loraComm fw) (0 # h))\<rparr>)"
proof -
  let ?se' = "(secureElement fw)\<lparr>atecc := (atecc (secureElement fw))\<lparr>randoms := rs\<rparr>\<rparr>"
  let ?fw1 = "fw\<lparr>secureElement := ?se', braceClient := (braceClient fw)\<lparr>blindingFactor := r\<rparr>\<rparr>"
  let ?fw2 = "?fw1\<lparr>braceClient := (braceClient ?fw1)\<lparr>bc_commitment := h\<rparr>\<rparr>"
  have g: "generateBlindingFactor fw = (True, ?fw1)"
    by (simp add: generateBlindingFactor_def random_one_block [OF ini rnd])
  have k: "getPublicKey (secureElement ?fw1) SLOT_DEVICE_KEY = Some pk"
    using ini key by (simp add: getPublicKey_def)
  have b: "blindingFactor (braceClient ?fw1) = r" by simp
  have s: "sha256 (secureElement ?fw1) (spec_pad32 ''msingi:commitment:v1'' @ pk @ r) = Some h"
    using hsh(1) by (simp add: sha256_randoms)
  have c: "computeCommitment ?fw1 = (True, ?fw2)"
    unfolding computeCommitment_spec [OF key(2) rnd(2) k b] s by simp
  have m: "take 33 (memcpy (0 # replicate 32 0) (Suc 0) h 32) = 0 # h"
    using hsh(2) by (simp add: memcpy_def)
  have q: "sendRegistrationRequest ?fw2 =
      (fst (transmit (loraComm fw) (0 # h)), ?fw2\<lparr>loraComm := snd (transmit (loraComm fw) (0 # h))\<rparr>)"
    by (simp add: sendRegistrationRequest_def m split: prod.splits)
  show ?thesis
    using ptr q by (simp add: registerDevice_def g c)
qed

lemma generateBlindingFactor_flag:
  "generateBlindingFactor (with_registered b fw) =
     (fst (generateBlindingFactor fw), with_registered b (snd (generateBlindingFactor fw)))"
  by (simp add: generateBlindingFactor_def with_registered_def split: prod.splits)

lemma computeCommitment_flag:
  "computeCommitment (with_registered b fw) =
     (fst (computeCommitment fw), with_registered b (snd (computeCommitment fw)))"
  by (simp add: computeCommitment_def with_registered_def split: option.splits)

lemma sendRegistrationRequest_flag:
  "sendRegistrationRequest (with_registered b fw) =
     (fst (sendRegistrationRequest fw), with_registered b (snd (sendRegistrationRequest fw)))"
  by (simp add: sendRegistrationRequest_def with_registered_def split: prod.splits)

lemma registerDevice_flag:
  "registerDevice (with_registered b fw) =
     (fst (registerDevice fw), with_registered b (snd (registerDevice fw)))"
proof (cases "has_se (braceClient fw) \<and> has_lora (braceClient fw)")
  case False
  then show ?thesis by (auto simp add: registerDevice_def with_registered_def)
next
  case True
  then have p: "has_se (braceClient (with_registered b fw)) \<and> has_lora (braceClient (with_registered b fw))"
    by (simp add: with_registered_def)
  obtain ok1 fw1 where g: "generateBlindingFactor fw = (ok1, fw1)" by (cases "generateBlindingFactor fw")
  obtain ok2 fw2 where c: "computeCommitment fw1 = (ok2, fw2)" by (cases "computeCommitment fw1")
  obtain ok3 fw3 where q: "sendRegistrationRequest fw2 = (ok3, fw3)" by (cases "sendRegistrationRequest fw2")
  have g': "generateBlindingFactor (with_registered b fw) = (ok1, with_registered b fw1)"
    by (simp add: generateBlindingFactor_flag g)
  have c': "computeCommitment (with_registered b fw1) = (ok2, with_registered b fw2)"
    by (simp add: computeCommitment_flag c)
  have q': "sendRegistrationRequest (with_registered b fw2) = (ok3, with_registered b fw3)"
    by (simp add: sendRegistrationRequest_flag q)
  have l: "registerDevice (with_registered b fw) =
      (if \<not> ok1 then (False, with_registered b fw1)
       else if \<not> ok2 then (False, with_registered b fw2)
       else if \<not> ok3 then (False, with_registered b fw3) else (True, with_registered b fw3))"
    using p by (simp add: registerDevice_def [of "with_registered b fw"] g' c' q')
  have r: "registerDevice fw =
      (if \<not> ok1 then (False, fw1)
       else if \<not> ok2 then (False, fw2)
       else if \<not> ok3 then (False, fw3) else (True, fw3))"
    using True by (simp add: registerDevice_def [of fw] g c q)
  show ?thesis unfolding l r by simp
qed


lemma transmit_33_acknowledged:
  assumes "length h = 32"
    and "radio l (''AT+SEND=1,66,00'' @ hex_of h) = ''+OK'' @ [CHR 0x0D, CHR 0x0A]"
  shows "fst (transmit l (0 # h))"
    and "tx (snd (transmit l (0 # h))) = tx l @ [''AT+SEND=1,66,00'' @ hex_of h]"
proof -
  have c: "take 559 (''AT+SEND=1,'' @ fmt_dec (length (0 # h) * 2) @ '','' @ hex_of (0 # h))
      = ''AT+SEND=1,66,00'' @ hex_of h"
    using assms(1) by (simp add: fmt_dec_66 hex_of_Cons0 length_hex_of)
  have le: "length (0 # h) \<le> 240"
    using assms(1) by simp
  show "fst (transmit l (0 # h))"
    by (rule transmit_acknowledged [OF le, of l, unfolded c, OF assms(2)])
  show "tx (snd (transmit l (0 # h))) = tx l @ [''AT+SEND=1,66,00'' @ hex_of h]"
    using transmit_33 [of "0 # h" l] assms(1) by (simp add: hex_of_Cons0)
qed

text \<open>
  Claim C2 as stated: called while already registered, \<open>registerDevice\<close> fails and does
  nothing. On the example device with the flag set it returns success, a new blinding
  factor and a new commitment are stored, and a registration message is written to the
  radio.
\<close>

theorem C2_counterexample:
  "registered (braceClient demo_registered)
   \<and> fst (registerDevice demo_registered)
   \<and> blindingFactor (braceClient demo_registered) = replicate 32 0x00
   \<and> blindingFactor (braceClient (snd (registerDevice demo_registered))) = replicate 32 0x11
   \<and> bc_commitment (braceClient demo_registered) = replicate 32 0x00
   \<and> bc_commitment (braceClient (snd (registerDevice demo_registered))) = replicate 32 0x11
   \<and> tx (loraComm demo_registered) = []
   \<and> tx (loraComm (snd (registerDevice demo_registered))) =
        [''AT+SEND=1,66,001111111111111111111111111111111111111111111111111111111111111111'']"
  by code_simp

text \<open>
  Claim C2, amended: \<open>registerDevice\<close> does not consult the enrollment state. Called
  while the state is already registered, with both collaborators set, it does what it
  does in any other state: when the chip delivers 32 random bytes, the public key and
  the digest, and the radio acknowledges, it stores the new blinding factor, recomputes
  the commitment, writes the registration message (byte 0x00, then the commitment) and
  returns success; the flag stays set. For either value of the flag the result and every
  effect are the same.
\<close>

theorem C2_registerDevice_does_not_consult_the_flag:
  assumes "registered (braceClient fw)"
    and "has_se (braceClient fw)" and "has_lora (braceClient fw)"
    and "initialized (secureElement fw)"
    and "randoms (atecc (secureElement fw)) = Some r # rs" and "length r = 32"
    and "length (blindingFactor (braceClient fw)) = 32"
    and "generatePublicKey (atecc (secureElement fw)) SLOT_DEVICE_KEY = Some pk" and "length pk = 64"
    and "sha256 (secureElement fw) (spec_pad32 ''msingi:commitment:v1'' @ pk @ r) = Some h"
    and "length h = 32"
    and "radio (loraComm fw) (''AT+SEND=1,66,00'' @ hex_of h) = ''+OK'' @ [CHR 0x0D, CHR 0x0A]"
  shows "fst (registerDevice fw)
     \<and> registered (braceClient (snd (registerDevice fw)))
     \<and> blindingFactor (braceClient (snd (registerDevice fw))) = r
     \<and> bc_commitment (braceClient (snd (registerDevice fw))) = h
     \<and> tx (loraComm (snd (registerDevice fw))) = tx (loraComm fw) @ [''AT+SEND=1,66,00'' @ hex_of h]
     \<and> (\<forall>b. registerDevice (with_registered b fw) =
               (fst (registerDevice fw), with_registered b (snd (registerDevice fw))))"
  using assms(1) transmit_33_acknowledged [OF assms(11,12)]
  by (simp add: registerDevice_succeeds [OF assms(2-11)] registerDevice_flag)

text \<open>The theorem for claim C2 at the example device with the flag set.\<close>

theorem C2_witness:
  "fst (registerDevice demo_registered)
   \<and> registered (braceClient (snd (registerDevice demo_registered)))
   \<and> blindingFactor (braceClient (snd (registerDevice demo_registered))) = replicate 32 0x11
   \<and> bc_commitment (braceClient (snd (registerDevice demo_registered))) = replicate 32 0x11
   \<and> tx (loraComm (snd (registerDevice demo_registered))) =
        tx (loraComm demo_registered) @ [''AT+SEND=1,66,00'' @ hex_of (replicate 32 0x11)]"
proof -
  have 1: "registered (braceClient demo_registered)"
    and 2: "has_se (braceClient demo_registered)" and 3: "has_lora (braceClient demo_registered)"
    and 4: "initialized (secureElement demo_registered)"
    and 5: "randoms (atecc (secureElement demo_registered)) = Some (replicate 32 0x11) # [Some (replicate 32 0x22)]"
    and 6: "length (replicate 32 (0x11::u8)) = 32"
    and 7: "length (blindingFactor (braceClient demo_registered)) = 32"
    and 8: "generatePublicKey (atecc (secureElement demo_registered)) SLOT_DEVICE_KEY = Some (replicate 64 0xAA)"
    and 9: "length (replicate 64 (0xAA::u8)) = 64"
    by (simp_all add: demo_registered_def demo_fw_def demo_chip_def SLOT_DEVICE_KEY_def)
  have s: "sha256End (atecc (secureElement demo_registered))
             (spec_pad32 ''msingi:commitment:v1'' @ replicate 64 0xAA @ replicate 32 0x11)
           = Some (replicate 32 0x11)"
    by (simp add: demo_registered_def demo_fw_def demo_chip_def)
  have 10: "sha256 (secureElement demo_registered)
             (spec_pad32 ''msingi:commitment:v1'' @ replicate 64 0xAA @ replicate 32 0x11)
           = Some (replicate 32 0x11)"
    unfolding s [symmetric]
    by (rule sha256_succeeds [OF 4]) (simp_all add: demo_registered_def demo_fw_def demo_chip_def)
  have 12: "radio (loraComm demo_registered) (''AT+SEND=1,66,00'' @ hex_of (replicate 32 0x11))
      = ''+OK'' @ [CHR 0x0D, CHR 0x0A]"
    by (simp add: demo_registered_def demo_fw_def demo_lora_def ok_radio_def)
  note th = C2_registerDevice_does_not_consult_the_flag [OF 1 2 3 4 5 6 7 8 9 10 6 12]
  from th [THEN conjunct1] th [THEN conjunct2, THEN conjunct1]
    th [THEN conjunct2, THEN conjunct2, THEN conjunct1]
    th [THEN conjunct2, THEN conjunct2, THEN conjunct2, THEN conjunct1]
    th [THEN conjunct2, THEN conjunct2, THEN conjunct2, THEN conjunct2, THEN conjunct1]
  show ?thesis by (intro conjI)
qed


section \<open>The registered flag\<close>

lemma generateBlindingFactor_registered:
  "registered (braceClient (snd (generateBlindingFactor fw))) = registered (braceClient fw)"
  by (simp add: generateBlindingFactor_def split: prod.splits)

lemma computeCommitment_registered:
  "registered (braceClient (snd (computeCommitment fw))) = registered (braceClient fw)"
  by (simp add: computeCommitment_def split: option.splits)

lemma sendRegistrationRequest_registered:
  "registered (braceClient (snd (sendRegistrationRequest fw))) = registered (braceClient fw)"
  by (simp add: sendRegistrationRequest_def split: prod.splits)

lemma registerDevice_registered:
  "registered (braceClient (snd (registerDevice fw))) = registered (braceClient fw)"
proof -
  obtain ok1 fw1 where g: "generateBlindingFactor fw = (ok1, fw1)" by (cases "generateBlindingFactor fw")
  obtain ok2 fw2 where c: "computeCommitment fw1 = (ok2, fw2)" by (cases "computeCommitment fw1")
  obtain ok3 fw3 where q: "sendRegistrationRequest fw2 = (ok3, fw3)" by (cases "sendRegistrationRequest fw2")
  have 1: "registered (braceClient fw1) = registered (braceClient fw)"
    using generateBlindingFactor_registered [of fw] by (simp add: g)
  have 2: "registered (braceClient fw2) = registered (braceClient fw1)"
    using computeCommitment_registered [of fw1] by (simp add: c)
  have 3: "registered (braceClient fw3) = registered (braceClient fw2)"
    using sendRegistrationRequest_registered [of fw2] by (simp add: q)
  show ?thesis
    by (simp add: registerDevice_def g c q 1 2 3)
qed

lemma attemptRegistration_registered:
  "registered (braceClient (attemptRegistration fw)) = registered (braceClient fw)"
  using registerDevice_registered [of fw]
  by (cases "registerDevice fw") (simp add: attemptRegistration_def)

lemma collectAndTransmitData_braceClient:
  "braceClient (collectAndTransmitData fw t) = braceClient fw"
  by (simp add: collectAndTransmitData_def Let_def split: option.splits prod.splits)

lemma handleIncomingMessage_braceClient:
  "handleIncomingMessage fw = Inr fw' \<Longrightarrow> braceClient fw' = braceClient fw"
  by (auto simp add: handleIncomingMessage_def Let_def split: sum.splits prod.splits if_splits)

lemma loop_registered:
  assumes "loop fw t = Inr fw'"
  shows "registered (braceClient fw') = registered (braceClient fw)"
proof -
  obtain fw1 where h: "(if available (loraComm fw) then handleIncomingMessage fw else Inr fw) = Inr fw1"
    using assms by (auto simp add: loop_def split: sum.splits)
  have 1: "braceClient fw1 = braceClient fw"
    using h handleIncomingMessage_braceClient by (auto split: if_splits)
  have "fw' = fw1 \<or> fw' = attemptRegistration (fw1\<lparr>lastReading := now t\<rparr>)
      \<or> fw' = collectAndTransmitData (fw1\<lparr>lastReading := now t\<rparr>) t"
    using assms h by (auto simp add: loop_def Let_def split: if_splits)
  then show ?thesis
    using 1 by (auto simp add: attemptRegistration_registered collectAndTransmitData_braceClient)
qed

lemma run_registered:
  "run fw ts = Inr fw' \<Longrightarrow> registered (braceClient fw') = registered (braceClient fw)"
proof (induction ts arbitrary: fw)
  case Nil
  then show ?case by simp
next
  case (Cons a ts)
  obtain arrived t where a: "a = (arrived, t)" by (cases a)
  let ?fw0 = "fw\<lparr>loraComm := (loraComm fw)\<lparr>rx := rx (loraComm fw) @ arrived\<rparr>\<rparr>"
  from Cons.prems obtain fw1 where l: "loop ?fw0 t = Inr fw1" and r: "run fw1 ts = Inr fw'"
    by (auto simp add: a split: sum.splits)
  have "registered (braceClient fw1) = registered (braceClient ?fw0)"
    by (rule loop_registered [OF l])
  with Cons.IH [OF r] show ?case by simp
qed

lemma begin_registered:
  "registered (braceClient (BraceClient_begin fw)) \<Longrightarrow>
     getPublicKey (secureElement fw) SLOT_BLINDING_FACTOR \<noteq> None"
  by (auto simp add: BraceClient_begin_def Let_def split: option.splits)

text \<open>
  Claim C7: the client's \<open>_registered\<close> flag can only be set by \<open>begin\<close>, and only
  when a stored blinding factor is found; \<open>registerDevice\<close>, the handler of incoming
  messages (which sets the loop's own flag) and every pass of the loop leave it as it is
  (\<open>getCommitment\<close> only reads). So on a device that starts unregistered,
  \<open>isRegistered\<close> stays false and \<open>getCommitment\<close> keeps failing, leaving its
  destination untouched, after any number of passes, whatever arrives on the radio.
\<close>

theorem C7_registered_flag_is_set_only_by_begin:
  "(registered (braceClient (BraceClient_begin fw)) \<longrightarrow>
       getPublicKey (secureElement fw) SLOT_BLINDING_FACTOR \<noteq> None)
   \<and> registered (braceClient (snd (registerDevice fw))) = registered (braceClient fw)
   \<and> (\<forall>fw'. handleIncomingMessage fw = Inr fw' \<longrightarrow>
          registered (braceClient fw') = registered (braceClient fw))
   \<and> (\<forall>ts fw'. run fw ts = Inr fw' \<longrightarrow>
          registered (braceClient fw') = registered (braceClient fw))
   \<and> (\<forall>ts fw' dst. \<not> registered (braceClient fw) \<and> run fw ts = Inr fw' \<longrightarrow>
          \<not> isRegistered fw' \<and> getCommitment fw' dst = (False, dst))"
proof (intro conjI allI impI)
  assume "registered (braceClient (BraceClient_begin fw))"
  then show "getPublicKey (secureElement fw) SLOT_BLINDING_FACTOR \<noteq> None"
    by (rule begin_registered)
next
  show "registered (braceClient (snd (registerDevice fw))) = registered (braceClient fw)"
    by (rule registerDevice_registered)
next
  fix fw' assume "handleIncomingMessage fw = Inr fw'"
  then show "registered (braceClient fw') = registered (braceClient fw)"
    by (simp add: handleIncomingMessage_braceClient)
next
  fix ts fw' assume "run fw ts = Inr fw'"
  then show "registered (braceClient fw') = registered (braceClient fw)"
    by (rule run_registered)
next
  fix ts fw' dst
  assume a: "\<not> registered (braceClient fw) \<and> run fw ts = Inr fw'"
  then have n: "\<not> registered (braceClient fw')"
    using run_registered [of fw ts fw'] by simp
  then show "\<not> isRegistered fw'" by (simp add: isRegistered_def)
  from n show "getCommitment fw' dst = (False, dst)" by (simp add: getCommitment_def)
qed

lemma fresh_boot_run:
  "(case run (setup_fw demo_fw) [([], demo_tick), (ack_line, later_tick)] of
      Inl f \<Rightarrow> False
    | Inr fw' \<Rightarrow> deviceRegistered fw' \<and> length (tx (loraComm fw')) = 2
         \<and> commitmentBytes fw' = replicate 32 0
         \<and> bc_commitment (braceClient fw') = replicate 32 0x11)"
  by code_simp

text \<open>
  The theorem for claim C7 at the example device: it starts unregistered, enrolls in the
  first pass and receives the acknowledgment in the second.
\<close>

theorem C7_witness:
  "\<not> registered (braceClient (setup_fw demo_fw))
   \<and> (case run (setup_fw demo_fw) [([], demo_tick), (ack_line, later_tick)] of
        Inl f \<Rightarrow> False
      | Inr fw' \<Rightarrow> deviceRegistered fw' \<and> \<not> isRegistered fw'
           \<and> getCommitment fw' (commitmentBytes fw') = (False, commitmentBytes fw'))"
proof -
  have n: "\<not> registered (braceClient (setup_fw demo_fw))"
    by code_simp
  obtain fw' where r: "run (setup_fw demo_fw) [([], demo_tick), (ack_line, later_tick)] = Inr fw'"
    and d: "deviceRegistered fw'"
    using fresh_boot_run
    by (cases "run (setup_fw demo_fw) [([], demo_tick), (ack_line, later_tick)]") simp_all
  note th = C7_registered_flag_is_set_only_by_begin [of "setup_fw demo_fw"]
  note c = th [THEN conjunct2, THEN conjunct2, THEN conjunct2, THEN conjunct2,
      THEN spec, THEN spec, THEN spec, THEN mp, OF conjI [OF n r]]
  from n d c show ?thesis
    unfolding r by simp
qed


section \<open>Control messages\<close>

lemma handleIncomingMessage_epoch:
  assumes "receive (loraComm fw) (replicate 256 0) 256 = Inr (len, buf, l')"
  shows "\<exists>fw'. handleIncomingMessage fw = Inr fw' \<and> loraComm fw' = l'
           \<and> currentEpoch fw' = (if buf ! 0 = 0x02 \<and> 5 \<le> len then epoch_of buf else currentEpoch fw)
           \<and> deviceRegistered fw' = (deviceRegistered fw \<or> (0 < len \<and> buf ! 0 = 0x01))"
  using assms by (auto simp add: handleIncomingMessage_def Let_def)

text \<open>
  Claim C9: when the received message has first byte 0x02 and at least 5 bytes, the held
  epoch becomes the big-endian value of bytes 1 to 4, whatever the held epoch was (so
  also when the new value is lower); a 0x02 message of fewer than 5 bytes and every
  other message leave the epoch as it is.
\<close>

theorem C9_epoch_update_replaces_held_epoch:
  assumes "receive (loraComm fw) (replicate 256 0) 256 = Inr (len, buf, l')"
  shows "\<exists>fw'. handleIncomingMessage fw = Inr fw'
           \<and> currentEpoch fw' =
               (if buf ! 0 = 0x02 \<and> 5 \<le> len
                then word_of_nat (unat (buf ! 1) * 2 ^ 24 + unat (buf ! 2) * 2 ^ 16
                                   + unat (buf ! 3) * 2 ^ 8 + unat (buf ! 4))
                else currentEpoch fw)"
  using handleIncomingMessage_epoch [OF assms] by (auto simp add: epoch_of_value)

lemma epoch9_received:
  "(case receive (loraComm epoch9_fw) (replicate 256 0) 256 of
      Inl f \<Rightarrow> False
    | Inr (len, buf, l') \<Rightarrow> len = 5 \<and> take 5 buf = [0x02, 0x00, 0x00, 0x00, 0x05])"
  by code_simp

text \<open>The theorem for claim C9 at a device that holds epoch 9 and receives epoch 5.\<close>

theorem C9_witness:
  "currentEpoch epoch9_fw = 9
   \<and> (\<exists>fw'. handleIncomingMessage epoch9_fw = Inr fw' \<and> currentEpoch fw' = 5)"
proof -
  obtain len buf l' where r: "receive (loraComm epoch9_fw) (replicate 256 0) 256 = Inr (len, buf, l')"
    and l: "len = 5" and b: "take 5 buf = [0x02, 0x00, 0x00, 0x00, 0x05]"
    using epoch9_received
    by (cases "receive (loraComm epoch9_fw) (replicate 256 0) 256") auto
  have t: "i < 5 \<Longrightarrow> buf ! i = [0x02, 0x00, 0x00, 0x00, 0x05] ! i" for i
    using b by (metis nth_take)
  have n: "buf ! 0 = 0x02" "buf ! 1 = 0" "buf ! 2 = 0" "buf ! 3 = 0" "buf ! 4 = 5"
    using t [of 0] t [of 1] t [of 2] t [of 3] t [of 4] by simp_all
  have e: "currentEpoch epoch9_fw = 9" by (simp add: epoch9_fw_def)
  from C9_epoch_update_replaces_held_epoch [OF r] e show ?thesis
    by (simp add: n n(2) [unfolded One_nat_def] l)
qed


section \<open>Receiving a frame\<close>

lemma read_line_to_LF:
  "CHR 0x0A \<notin> set pre \<Longrightarrow> length pre < n \<Longrightarrow>
     read_line (pre @ CHR 0x0A # rest) n = (pre @ [CHR 0x0A], rest)"
proof (induction pre arbitrary: n)
  case Nil
  then show ?case by simp
next
  case (Cons c pre)
  from Cons.prems have "read_line (pre @ CHR 0x0A # rest) (n - 1) = (pre @ [CHR 0x0A], rest)"
    by (intro Cons.IH) auto
  with Cons.prems show ?case by auto
qed

text \<open>
  Claim C1 as stated: the line \<open>+RCV=1,2,0102,-40,9\<close> yields the two bytes 01 02. The
  driver takes the length field as the number of hexadecimal characters to convert, so it
  stores the single byte 01.
\<close>

theorem C1_counterexample:
  "received (receive (demo_lora ''+RCV=1,2,0102,-40,9'') (replicate 256 0) 256) = Inr ([0x01], -40, 9)
   \<and> received (receive (demo_lora ''+RCV=1,2,0102,-40,9'') (replicate 256 0) 256)
        \<noteq> Inr ([0x01, 0x02], -40, 9)"
  by code_simp

lemmas receive_steps = strtok_def NUL_def cstr_def atoi_def strip_sign_def isspace_def isdigit_def
  digit_val_def opt_field_def strtol16_def hex_val_def Let_def

lemma hex_loop_writes:
  "hex_loop raw tok dl ml i out buf = Inr (n, b') \<Longrightarrow>
     out \<le> n \<and> length b' = length buf \<and> drop n b' = drop n buf \<and> take out b' = take out buf"
proof (induction raw tok dl ml i out buf rule: hex_loop.induct)
  case (1 raw tok dataLen maxLen i outLen buffer)
  show ?case
  proof (cases "i < dataLen \<and> outLen < maxLen")
    case False
    with "1.prems" show ?thesis
      by (simp add: hex_loop.simps [of raw tok dataLen maxLen i outLen buffer])
  next
    case True
    let ?v = "word_of_int (strtol16 (cstr [raw ! (tok + i), raw ! (tok + i + 1), NUL] 0)) :: u8"
    from True "1.prems" have r: "tok + i + 1 < length raw" and w: "outLen < length buffer"
      and rec: "hex_loop raw tok dataLen maxLen (i + 2) (outLen + 1) (buffer[outLen := ?v]) = Inr (n, b')"
      by (simp_all add: hex_loop.simps [of raw tok dataLen maxLen i outLen buffer] split: if_splits)
    from "1.IH" [OF True r w rec]
    have a: "outLen + 1 \<le> n" and b: "length b' = length buffer"
      and c: "drop n b' = drop n (buffer[outLen := ?v])"
      and d: "take (outLen + 1) b' = take (outLen + 1) (buffer[outLen := ?v])"
      by simp_all
    from a c have c': "drop n b' = drop n buffer" by simp
    have "take outLen b' = take outLen (take (outLen + 1) b')" by simp
    also have "\<dots> = take outLen (take (outLen + 1) (buffer[outLen := ?v]))" by (simp only: d)
    also have "\<dots> = take outLen buffer" by simp
    finally have d': "take outLen b' = take outLen buffer" .
    from a b c' d' show ?thesis by simp
  qed
qed

lemma opt_field_Inr_cases:
  "(case opt_field raw s old of Inl f \<Rightarrow> Inl f | Inr (r, raw4, s4) \<Rightarrow> g r raw4 s4) = Inr y \<Longrightarrow>
     \<exists>r raw4 s4. opt_field raw s old = Inr (r, raw4, s4) \<and> g r raw4 s4 = Inr y"
  by (auto split: sum.splits)

lemma receive_writes:
  assumes "receive l buffer maxLen = Inr (n, b', l')"
  shows "length b' = length buffer \<and> drop n b' = drop n buffer"
proof (cases "available l")
  case False
  with assms show ?thesis by (simp add: receive_def)
next
  case True
  obtain line rest where rl: "read_line (rx l) 511 = (line, rest)" by (cases "read_line (rx l) 511")
  show ?thesis
  proof (cases "take 5 (line @ [NUL]) \<noteq> ''+RCV=''")
    case True
    with assms \<open>available l\<close> rl show ?thesis by (simp add: receive_def Let_def del: take_append)
  next
    case False
    obtain t1 raw1 s1 where k1: "strtok (line @ [NUL]) 5 = (t1, raw1, s1)" by (cases "strtok (line @ [NUL]) 5")
    obtain t2 raw2 s2 where k2: "strtok raw1 s1 = (t2, raw2, s2)" by (cases "strtok raw1 s1")
    obtain t3 raw3 s3 where k3: "strtok raw2 s2 = (t3, raw3, s3)" by (cases "strtok raw2 s2")
    show ?thesis
    proof (cases "t1 = None \<or> t2 = None \<or> t3 = None")
      case True
      with assms \<open>available l\<close> rl False k1 k2 k3 show ?thesis
        by (auto simp add: receive_def Let_def simp del: take_append split: option.splits sum.splits)
    next
      case n: False
      then obtain p1 p2 p3 where p: "t1 = Some p1" "t2 = Some p2" "t3 = Some p3" by auto
      from assms \<open>available l\<close> rl False k1 k2 k3 p
      obtain v where "hex_loop raw3 p3 (nat (v mod 2 ^ 32)) maxLen 0 0 buffer = Inr (n, b')"
        by (auto simp add: receive_def Let_def simp del: take_append split: sum.splits)
      from hex_loop_writes [OF this] show ?thesis by simp
    qed
  qed
qed

lemma receive_wrong_prefix:
  assumes "take 5 (fst (read_line (rx l) 511)) \<noteq> ''+RCV=''"
  shows "receive l buffer maxLen =
           Inr (0, buffer, if available l then l\<lparr>rx := snd (read_line (rx l) 511)\<rparr> else l)"
proof -
  obtain line rest where rl: "read_line (rx l) 511 = (line, rest)" by (cases "read_line (rx l) 511")
  have "take 5 (line @ [NUL]) \<noteq> ''+RCV=''"
  proof
    assume e: "take 5 (line @ [NUL]) = ''+RCV=''"
    have n: "NUL \<notin> set ''+RCV=''" by (simp add: NUL_def)
    have "length line \<ge> 5"
    proof (rule ccontr)
      assume "\<not> 5 \<le> length line"
      then have "take 5 (line @ [NUL]) = line @ [NUL]" by simp
      with e n show False by (metis in_set_conv_decomp)
    qed
    then have "take 5 (line @ [NUL]) = take 5 line" by simp
    with e assms rl show False by simp
  qed
  then show ?thesis
    by (simp add: receive_def Let_def rl del: take_append)
qed


lemma takeWhile_stop:
  "\<not> P y \<Longrightarrow> takeWhile P (xs @ y # ys) = takeWhile P xs"
  by (induction xs) simp_all

lemma strtok_step:
  assumes nul: "NUL \<notin> set str"
  defines "commas \<equiv> takeWhile (\<lambda>c. c = CHR '','') str"
    and "t \<equiv> dropWhile (\<lambda>c. c = CHR '','') str"
  defines "tokn \<equiv> takeWhile (\<lambda>c. c \<noteq> CHR '','') t"
    and "t' \<equiv> dropWhile (\<lambda>c. c \<noteq> CHR '','') t"
  shows "strtok (pre @ str @ NUL # rest) (length pre) =
     (if t = [] then (None, pre @ str @ NUL # rest, length pre + length str)
      else if t' = [] then
        (Some (length pre + length commas), pre @ str @ NUL # rest, length pre + length str)
      else
        (Some (length pre + length commas),
         pre @ commas @ tokn @ NUL # tl t' @ NUL # rest,
         length pre + length commas + length tokn + 1))"
proof -
  let ?buf = "pre @ str @ NUL # rest"
  have nc: "NUL \<noteq> CHR '',''" by (simp add: NUL_def)
  have str: "str = commas @ t" by (simp add: commas_def t_def)
  have t: "t = tokn @ t'" by (simp add: tokn_def t'_def)
  have nt: "NUL \<notin> set t" "NUL \<notin> set tokn"
    using nul str t by auto
  have a: "takeWhile (\<lambda>c. c = CHR '','') (drop (length pre) ?buf) = commas"
    using nc by (simp add: takeWhile_stop commas_def)
  have buf: "?buf = (pre @ commas) @ t @ NUL # rest"
    using str by simp
  have dp: "drop (length pre + length commas) ?buf = t @ NUL # rest"
    unfolding buf by (simp del: append_assoc)
  have lp: "length pre + length commas < length ?buf"
    unfolding buf by simp
  have hd: "?buf ! (length pre + length commas) = (t @ NUL # rest) ! 0"
    unfolding buf by (simp add: nth_append del: append_assoc)
  show ?thesis
  proof (cases "t = []")
    case True
    then have "?buf ! (length pre + length commas) = NUL" using hd by simp
    moreover have "length str = length commas" using str True by simp
    ultimately show ?thesis
      using True unfolding strtok_def Let_def a by (simp only: if_True simp_thms)
  next
    case False
    then have ne: "?buf ! (length pre + length commas) \<noteq> NUL"
      using hd nt(1) by (cases t) auto
    have b: "takeWhile (\<lambda>c. c \<noteq> CHR '','' \<and> c \<noteq> NUL) (drop (length pre + length commas) ?buf) = tokn"
    proof -
      have "takeWhile (\<lambda>c. c \<noteq> CHR '','' \<and> c \<noteq> NUL) (t @ NUL # rest)
          = takeWhile (\<lambda>c. c \<noteq> CHR '','' \<and> c \<noteq> NUL) t"
        by (simp add: takeWhile_stop)
      also have "\<dots> = takeWhile (\<lambda>c. c \<noteq> CHR '','') t"
        using nt(1) by (intro takeWhile_cong) auto
      finally show ?thesis unfolding dp tokn_def .
    qed
    have buf2: "?buf = (pre @ commas @ tokn) @ t' @ NUL # rest"
      using str t by simp
    have hq: "?buf ! (length pre + length commas + length tokn) = (t' @ NUL # rest) ! 0"
      unfolding buf2 by (simp add: nth_append del: append_assoc)
    have lq: "length pre + length commas + length tokn < length ?buf"
      unfolding buf2 by simp
    show ?thesis
    proof (cases "t' = []")
      case True
      then have "?buf ! (length pre + length commas + length tokn) = NUL" using hq by simp
      moreover have "length str = length commas + length tokn" using str t True by simp
      ultimately show ?thesis
        using False True ne lp unfolding strtok_def Let_def a b
        by (simp only: if_True if_False simp_thms not_le [symmetric] add.assoc)
    next
      case f: False
      then obtain c t'' where t': "t' = c # t''" by (cases t') auto
      have "c = CHR '',''"
        using t' hd_dropWhile [of "\<lambda>c. c \<noteq> CHR '',''" t] by (simp add: t'_def)
      then have qn: "?buf ! (length pre + length commas + length tokn) \<noteq> NUL"
        using hq t' nc by simp
      have upd: "?buf[length pre + length commas + length tokn := NUL]
          = pre @ commas @ tokn @ NUL # tl t' @ NUL # rest"
        unfolding buf2 t' by (simp add: list_update_append del: append_assoc) 
      show ?thesis
        using False f ne lp qn lq unfolding strtok_def Let_def a b upd
        by (simp only: if_True if_False simp_thms not_le [symmetric] add.assoc)
    qed
  qed
qed



lemma cstr_at:
  "NUL \<notin> set xs \<Longrightarrow> cstr (pre @ xs @ NUL # ys) (length pre) = xs"
  by (induction xs) (auto simp add: cstr_def)

lemma ex4I: "P a b c d \<Longrightarrow> \<exists>a b c d. P a b c d"
  by blast

lemma strtok_fields:
  assumes nul: "NUL \<notin> set str"
  shows "\<exists>tk buf' pre' str'.
           strtok (pre @ str @ NUL # rest) (length pre) = (tk, buf', length pre')
         \<and> buf' = pre' @ str' @ NUL # rest \<and> NUL \<notin> set str'
         \<and> (case frame_fields str of
               [] \<Rightarrow> tk = None \<and> frame_fields str' = []
             | f # fs \<Rightarrow> (\<exists>p. tk = Some p \<and> cstr buf' p = f) \<and> frame_fields str' = fs)"
proof -
  define commas where "commas = takeWhile (\<lambda>c. c = CHR '','') str"
  define t where "t = dropWhile (\<lambda>c. c = CHR '','') str"
  define tokn where "tokn = takeWhile (\<lambda>c. c \<noteq> CHR '','') t"
  define t' where "t' = dropWhile (\<lambda>c. c \<noteq> CHR '','') t"
  note step = strtok_step [OF nul, of pre rest, folded commas_def t_def, folded tokn_def t'_def]
  have str: "str = commas @ t" by (simp add: commas_def t_def)
  have t: "t = tokn @ t'" by (simp add: tokn_def t'_def)
  have nt0: "NUL \<notin> set tokn" "NUL \<notin> set t'"
    using nul str t by auto
  have nt: "NUL \<notin> set tokn" "NUL \<notin> set t'" "NUL \<notin> set (tl t')"
    using nt0 by (cases t'; simp)+
  have fe: "frame_fields [] = []" by (simp add: frame_fields.simps)
  have ne: "NUL \<notin> set []" by simp
  show ?thesis
  proof (cases "t = []")
    case True
    have f: "frame_fields str = []"
      using True by (subst frame_fields.simps) (simp add: t_def)
    have s: "strtok (pre @ str @ NUL # rest) (length pre) = (None, (pre @ str) @ [] @ NUL # rest, length (pre @ str))"
      unfolding step using True by simp
    have c: "(case frame_fields str of
               [] \<Rightarrow> None = None \<and> frame_fields [] = []
             | f # fs \<Rightarrow> (\<exists>p. None = Some p \<and> cstr ((pre @ str) @ [] @ NUL # rest) p = f) \<and> frame_fields [] = fs)"
      unfolding f by (simp add: fe)
    show ?thesis
      by (rule ex4I [of _ None "(pre @ str) @ [] @ NUL # rest" "pre @ str" "[]"])
        (intro conjI s refl ne c)
  next
    case False
    have f: "frame_fields str = tokn # frame_fields (tl t')"
      using False by (subst frame_fields.simps) (simp add: t_def tokn_def t'_def Let_def)
    show ?thesis
    proof (cases "t' = []")
      case True
      then have tt: "t = tokn" using t by simp
      have s: "strtok (pre @ str @ NUL # rest) (length pre)
          = (Some (length pre + length commas), (pre @ str) @ [] @ NUL # rest, length (pre @ str))"
        unfolding step using False True by simp
      have "cstr ((pre @ commas) @ tokn @ NUL # rest) (length (pre @ commas)) = tokn"
        by (rule cstr_at [OF nt(1)])
      then have k: "cstr ((pre @ str) @ [] @ NUL # rest) (length pre + length commas) = tokn"
        unfolding str tt by simp
      have fs: "frame_fields [] = frame_fields (tl t')" unfolding True by simp
      have c: "(case frame_fields str of
               [] \<Rightarrow> Some (length pre + length commas) = None \<and> frame_fields [] = []
             | f # fs \<Rightarrow> (\<exists>p. Some (length pre + length commas) = Some p
                    \<and> cstr ((pre @ str) @ [] @ NUL # rest) p = f) \<and> frame_fields [] = fs)"
        unfolding f using k fs by simp
      show ?thesis
        by (rule ex4I [of _ "Some (length pre + length commas)" "(pre @ str) @ [] @ NUL # rest" "pre @ str" "[]"])
          (intro conjI s refl ne c)
    next
      case nf: False
      let ?pre' = "pre @ commas @ tokn @ [NUL]"
      have s: "strtok (pre @ str @ NUL # rest) (length pre)
          = (Some (length pre + length commas), ?pre' @ tl t' @ NUL # rest, length ?pre')"
        unfolding step using False nf by simp
      have "cstr ((pre @ commas) @ tokn @ NUL # (tl t' @ NUL # rest)) (length (pre @ commas)) = tokn"
        by (rule cstr_at [OF nt(1)])
      then have k: "cstr (?pre' @ tl t' @ NUL # rest) (length pre + length commas) = tokn"
        by simp
      have c: "(case frame_fields str of
               [] \<Rightarrow> Some (length pre + length commas) = None \<and> frame_fields (tl t') = []
             | f # fs \<Rightarrow> (\<exists>p. Some (length pre + length commas) = Some p
                    \<and> cstr (?pre' @ tl t' @ NUL # rest) p = f) \<and> frame_fields (tl t') = fs)"
        unfolding f using k by simp
      show ?thesis
        by (rule ex4I [of _ "Some (length pre + length commas)" "?pre' @ tl t' @ NUL # rest" ?pre' "tl t'"])
          (intro conjI s refl nt(3) c)
    qed
  qed
qed


lemma atoi_fault: "atoi s = Inl f \<Longrightarrow> f = Overflow"
  by (auto simp add: atoi_def Let_def split: prod.splits if_splits)

lemma receive_no_token:
  assumes "available l" "read_line (rx l) 511 = (line, rest)" "take 5 (line @ [NUL]) = ''+RCV=''"
  shows "strtok (line @ [NUL]) 5 = (None, raw1, s1) \<Longrightarrow>
           receive l buffer maxLen = Inr (0, buffer, l\<lparr>rx := rest\<rparr>)"
    and "strtok (line @ [NUL]) 5 = (Some p1, raw1, s1) \<Longrightarrow> strtok raw1 s1 = (None, raw2, s2) \<Longrightarrow>
           receive l buffer maxLen = Inr (0, buffer, l\<lparr>rx := rest\<rparr>)"
    and "strtok (line @ [NUL]) 5 = (Some p1, raw1, s1) \<Longrightarrow> strtok raw1 s1 = (Some p2, raw2, s2) \<Longrightarrow>
           atoi (cstr raw2 p2) = Inl f \<Longrightarrow> receive l buffer maxLen = Inl f"
    and "strtok (line @ [NUL]) 5 = (Some p1, raw1, s1) \<Longrightarrow> strtok raw1 s1 = (Some p2, raw2, s2) \<Longrightarrow>
           atoi (cstr raw2 p2) = Inr n \<Longrightarrow> strtok raw2 s2 = (None, raw3, s3) \<Longrightarrow>
           receive l buffer maxLen = Inr (0, buffer, l\<lparr>rx := rest\<rparr>)"
  using assms by (simp_all add: receive_def Let_def del: take_append)

lemma raw_decomposition:
  assumes "take 5 line = ''+RCV=''"
  shows "\<exists>rest0. line @ [NUL] = take 5 line @ takeWhile (\<lambda>c. c \<noteq> NUL) (drop 5 line) @ NUL # rest0"
proof -
  let ?body = "takeWhile (\<lambda>c. c \<noteq> NUL) (drop 5 line)"
  let ?tail = "dropWhile (\<lambda>c. c \<noteq> NUL) (drop 5 line)"
  have l: "line = take 5 line @ ?body @ ?tail" by simp
  show ?thesis
  proof (cases ?tail)
    case Nil
    have "line @ [NUL] = (take 5 line @ ?body @ ?tail) @ [NUL]" using l by simp
    then have "line @ [NUL] = take 5 line @ ?body @ NUL # []" unfolding Nil by simp
    then show ?thesis by blast
  next
    case (Cons c cs)
    have "c = NUL" using hd_dropWhile [of "\<lambda>c. c \<noteq> NUL" "drop 5 line"] Cons by simp
    have "line @ [NUL] = (take 5 line @ ?body @ ?tail) @ [NUL]" using l by simp
    then have "line @ [NUL] = take 5 line @ ?body @ NUL # (cs @ [NUL])"
      unfolding Cons \<open>c = NUL\<close> by simp
    then show ?thesis by blast
  qed
qed

lemma receive_truncated:
  assumes av: "available l" and rl: "read_line (rx l) 511 = (line, rest)"
    and pf: "take 5 line = ''+RCV=''"
    and fl: "length (frame_fields (takeWhile (\<lambda>c. c \<noteq> NUL) (drop 5 line))) < 3"
  shows "receive l buffer maxLen = Inr (0, buffer, l\<lparr>rx := rest\<rparr>)
     \<or> (\<exists>a b. frame_fields (takeWhile (\<lambda>c. c \<noteq> NUL) (drop 5 line)) = [a, b] \<and> atoi b = Inl Overflow
            \<and> receive l buffer maxLen = Inl Overflow)"
proof -
  let ?body = "takeWhile (\<lambda>c. c \<noteq> NUL) (drop 5 line)"
  let ?pre = "take 5 line"
  obtain rest0 where raw: "line @ [NUL] = ?pre @ ?body @ NUL # rest0"
    using raw_decomposition [OF pf] by blast
  have lp: "length ?pre = 5" unfolding pf by simp
  then have ll: "5 \<le> length line" by simp
  have pf': "take 5 (line @ [NUL]) = ''+RCV=''" using ll pf by simp
  have nb: "NUL \<notin> set ?body" by (auto dest: set_takeWhileD)
  note rn = receive_no_token [OF av rl pf']
  obtain tk1 raw1 pre1 str1 where
    k1: "strtok (line @ [NUL]) 5 = (tk1, raw1, length pre1)"
    and r1: "raw1 = pre1 @ str1 @ NUL # rest0" and n1: "NUL \<notin> set str1"
    and c1: "case frame_fields ?body of [] \<Rightarrow> tk1 = None \<and> frame_fields str1 = []
             | f # fs \<Rightarrow> (\<exists>p. tk1 = Some p \<and> cstr raw1 p = f) \<and> frame_fields str1 = fs"
    using strtok_fields [OF nb, of ?pre rest0] unfolding raw [symmetric] lp by blast
  obtain tk2 raw2 pre2 str2 where
    k2: "strtok raw1 (length pre1) = (tk2, raw2, length pre2)"
    and r2: "raw2 = pre2 @ str2 @ NUL # rest0" and n2: "NUL \<notin> set str2"
    and c2: "case frame_fields str1 of [] \<Rightarrow> tk2 = None \<and> frame_fields str2 = []
             | f # fs \<Rightarrow> (\<exists>p. tk2 = Some p \<and> cstr raw2 p = f) \<and> frame_fields str2 = fs"
    using strtok_fields [OF n1, of pre1 rest0] unfolding r1 [symmetric] by blast
  obtain tk3 raw3 pre3 str3 where
    k3: "strtok raw2 (length pre2) = (tk3, raw3, length pre3)"
    and r3: "raw3 = pre3 @ str3 @ NUL # rest0" and n3: "NUL \<notin> set str3"
    and c3: "case frame_fields str2 of [] \<Rightarrow> tk3 = None \<and> frame_fields str3 = []
             | f # fs \<Rightarrow> (\<exists>p. tk3 = Some p \<and> cstr raw3 p = f) \<and> frame_fields str3 = fs"
    using strtok_fields [OF n2, of pre2 rest0] unfolding r2 [symmetric] by blast
  show ?thesis
  proof (cases "frame_fields ?body")
    case Nil
    with c1 have "tk1 = None" by simp
    with rn(1) k1 show ?thesis by simp
  next
    case (Cons a fs)
    with c1 obtain p1 where t1: "tk1 = Some p1" and f1: "frame_fields str1 = fs" by auto
    show ?thesis
    proof (cases fs)
      case Nil
      with c2 f1 have "tk2 = None" by simp
      with rn(2) k1 k2 t1 show ?thesis by simp
    next
      case (Cons b fs')
      with c2 f1 obtain p2 where t2: "tk2 = Some p2" and cb: "cstr raw2 p2 = b"
        and f2: "frame_fields str2 = fs'" by auto
      from fl \<open>frame_fields ?body = a # fs\<close> Cons have e: "fs' = []" by simp
      with c3 f2 have t3: "tk3 = None" by simp
      show ?thesis
      proof (cases "atoi b")
        case (Inl f)
        then have "f = Overflow" by (rule atoi_fault)
        with Inl rn(3) [of p1 raw1 "length pre1" p2 raw2 "length pre2" f] k1 k2 t1 t2 cb
        have "receive l buffer maxLen = Inl Overflow" by simp
        with Inl \<open>f = Overflow\<close> \<open>frame_fields ?body = a # fs\<close> Cons e show ?thesis by simp
      next
        case (Inr n)
        with rn(4) [of p1 raw1 "length pre1" p2 raw2 "length pre2" n raw3 "length pre3"] k1 k2 k3 t1 t2 t3 cb
        show ?thesis by simp
      qed
    qed
  qed
qed


lemma char_neqI: "(of_char c :: nat) \<noteq> of_char c' \<Longrightarrow> c \<noteq> c'"
  by auto

lemma of_char_dec_digit: "d < 10 \<Longrightarrow> (of_char (dec_digit d) :: nat) = 48 + d"
  by (simp add: dec_digit_def)

lemma of_char_hex_digit:
  "d < 16 \<Longrightarrow> (of_char (hex_digit d) :: nat) = (if d < 10 then 48 + d else 55 + d)"
  by (simp add: hex_digit_def)

lemma dec_digit_props:
  assumes "d < 10"
  shows "isdigit (dec_digit d)" "digit_val (dec_digit d) = int d" "\<not> isspace (dec_digit d)"
    "dec_digit d \<noteq> CHR ''-''" "dec_digit d \<noteq> CHR ''+''" "dec_digit d \<noteq> CHR '',''"
    "dec_digit d \<noteq> NUL" "dec_digit d \<noteq> CHR 0x0A"
  using assms
  by (simp_all add: isdigit_def digit_val_def isspace_def NUL_def of_char_dec_digit char_neqI)

lemma hex_digit_props:
  assumes "d < 16"
  shows "hex_val (hex_digit d) = Some (int d)" "\<not> isspace (hex_digit d)"
    "hex_digit d \<noteq> CHR ''-''" "hex_digit d \<noteq> CHR ''+''" "hex_digit d \<noteq> CHR '',''"
    "hex_digit d \<noteq> NUL" "hex_digit d \<noteq> CHR 0x0A"
  using assms
  by (simp_all add: hex_val_def isspace_def NUL_def of_char_hex_digit char_neqI Let_def)

lemma fmt_dec_digits:
  "fmt_dec n \<noteq> [] \<and> (\<forall>c\<in>set (fmt_dec n). \<exists>d<10. c = dec_digit d)"
proof (induction n rule: fmt_dec.induct)
  case (1 n)
  show ?case
  proof (cases "n < 10")
    case True
    then show ?thesis by (subst fmt_dec.simps, subst (2) fmt_dec.simps) auto
  next
    case False
    have "n mod 10 < 10" by simp
    then have "\<exists>d<10. dec_digit (n mod 10) = dec_digit d" by blast
    with False "1.IH" show ?thesis
      by (subst fmt_dec.simps, subst (2) fmt_dec.simps) auto
  qed
qed

lemma decimal_append:
  "\<forall>c\<in>set xs. isdigit c \<Longrightarrow> decimal acc (xs @ ys) = decimal (decimal acc xs) ys"
  by (induction xs arbitrary: acc) simp_all

lemma decimal_fmt_dec: "decimal 0 (fmt_dec n) = int n"
proof (induction n rule: fmt_dec.induct)
  case (1 n)
  show ?case
  proof (cases "n < 10")
    case True
    then show ?thesis
      by (subst fmt_dec.simps) (simp add: dec_digit_props)
  next
    case False
    have d: "\<forall>c\<in>set (fmt_dec (n div 10)). isdigit c"
      using fmt_dec_digits [of "n div 10"] by (auto simp add: dec_digit_props)
    have m: "n mod 10 < 10" by simp
    have "decimal 0 (fmt_dec n) = decimal (decimal 0 (fmt_dec (n div 10))) [dec_digit (n mod 10)]"
      using False by (subst fmt_dec.simps) (simp add: decimal_append [OF d])
    also have "\<dots> = int (n div 10) * 10 + int (n mod 10)"
      using "1.IH" False by (simp add: dec_digit_props [OF m])
    also have "\<dots> = int (n div 10 * 10 + n mod 10)"
      by (simp only: of_nat_add of_nat_mult of_nat_numeral)
    also have "\<dots> = int n"
      by simp
    finally show ?thesis .
  qed
qed

lemma fmt_dec_chars:
  "c \<in> set (fmt_dec n) \<Longrightarrow> c \<noteq> CHR '','' \<and> c \<noteq> NUL \<and> c \<noteq> CHR 0x0A \<and> isdigit c"
proof -
  assume "c \<in> set (fmt_dec n)"
  then obtain d where "d < 10" "c = dec_digit d"
    using fmt_dec_digits [of n] by auto
  then show ?thesis by (simp add: dec_digit_props)
qed

lemma fmt_dec_hd:
  "\<exists>c cs. fmt_dec n = c # cs \<and> isdigit c \<and> \<not> isspace c \<and> c \<noteq> CHR ''-'' \<and> c \<noteq> CHR ''+''"
proof -
  obtain c cs where e: "fmt_dec n = c # cs"
    using fmt_dec_digits [of n] by (cases "fmt_dec n") auto
  then have "c \<in> set (fmt_dec n)" by simp
  then obtain d where "d < 10" "c = dec_digit d"
    using fmt_dec_digits [of n] by auto
  with e show ?thesis by (auto simp add: dec_digit_props)
qed

lemma atoi_fmt_dec:
  assumes "n < 2 ^ 31"
  shows "atoi (fmt_dec n) = Inr (int n)"
proof -
  obtain c cs where e: "fmt_dec n = c # cs" and c: "\<not> isspace c" "c \<noteq> CHR ''-''" "c \<noteq> CHR ''+''"
    using fmt_dec_hd [of n] by auto
  have "strip_sign (dropWhile isspace (fmt_dec n)) = (False, fmt_dec n)"
    using c by (simp add: e strip_sign_def)
  moreover have "int n < 2 ^ 31"
    using assms by (metis of_nat_less_iff of_nat_numeral of_nat_power)
  ultimately show ?thesis
    by (simp add: atoi_def decimal_fmt_dec)
qed

lemma length_fmt_dec: "n < 1000 \<Longrightarrow> length (fmt_dec n) \<le> 3"
proof -
  assume n: "n < 1000"
  have a: "\<And>m. m < 10 \<Longrightarrow> length (fmt_dec m) = 1"
    by (subst fmt_dec.simps) simp
  have b: "\<And>m. m < 100 \<Longrightarrow> length (fmt_dec m) \<le> 2"
  proof -
    fix m :: nat assume "m < 100"
    then have "m div 10 < 10" by simp
    from a [OF this] show "length (fmt_dec m) \<le> 2"
      by (subst fmt_dec.simps) simp
  qed
  from n have "n div 10 < 100" by simp
  from b [OF this] show ?thesis
    by (subst fmt_dec.simps) simp
qed

lemma hex_of_nth:
  "j < length data \<Longrightarrow>
     hex_of data ! (2 * j) = hex_digit (unat (data ! j) div 16)
   \<and> hex_of data ! (2 * j + 1) = hex_digit (unat (data ! j) mod 16)"
proof (induction data arbitrary: j)
  case Nil
  then show ?case by simp
next
  case (Cons b data)
  have c: "hex_of (b # data) = hex_digit (unat b div 16) # hex_digit (unat b mod 16) # hex_of data"
    by (simp add: hex_of_def fmt_02X_def)
  show ?case
  proof (cases j)
    case 0
    then show ?thesis by (simp add: c)
  next
    case (Suc i)
    with Cons.prems have "i < length data" by simp
    from Cons.IH [OF this] show ?thesis
      by (simp add: c Suc)
  qed
qed

lemma hex_of_chars:
  "c \<in> set (hex_of data) \<Longrightarrow> c \<noteq> CHR '','' \<and> c \<noteq> NUL \<and> c \<noteq> CHR 0x0A"
proof -
  assume "c \<in> set (hex_of data)"
  then obtain b where "c \<in> set (fmt_02X b)"
    by (auto simp add: hex_of_def)
  moreover have "unat b div 16 < 16"
    using unsigned_less [of b, where 'a = nat] by simp
  moreover have "unat b mod 16 < 16" by simp
  ultimately show ?thesis
    by (auto simp add: fmt_02X_def hex_digit_props)
qed

lemma strtol16_hex_pair:
  fixes b :: u8
  shows "word_of_int (strtol16 (cstr [hex_digit (unat b div 16), hex_digit (unat b mod 16), NUL] 0)) = b"
proof -
  have h: "unat b div 16 < 16"
    using unsigned_less [of b, where 'a = nat] by simp
  have l: "unat b mod 16 < 16" by simp
  have c: "cstr [hex_digit (unat b div 16), hex_digit (unat b mod 16), NUL] 0
      = [hex_digit (unat b div 16), hex_digit (unat b mod 16)]"
    by (simp add: cstr_def hex_digit_props [OF h] hex_digit_props [OF l])
  have "strtol16 [hex_digit (unat b div 16), hex_digit (unat b mod 16)]
      = int (unat b div 16) * 16 + int (unat b mod 16)"
    by (simp add: strtol16_def strip_sign_def hex_digit_props [OF h] hex_digit_props [OF l])
  also have "\<dots> = int (unat b div 16 * 16 + unat b mod 16)"
    by (simp only: of_nat_add of_nat_mult of_nat_numeral)
  also have "\<dots> = int (unat b)" by simp
  finally show ?thesis
    unfolding c by simp
qed

lemma hex_loop_hex_of:
  assumes k: "k \<le> 2 * length data"
    and m: "(k + 1) div 2 \<le> maxLen" "maxLen \<le> length buffer"
    and j: "j \<le> (k + 1) div 2"
  shows "hex_loop (pre @ hex_of data @ NUL # post) (length pre) k maxLen (2 * j) j buffer =
     Inr ((k + 1) div 2,
          take j buffer @ take ((k + 1) div 2 - j) (drop j data) @ drop ((k + 1) div 2) buffer)"
  using j m(2)
proof (induction "(k + 1) div 2 - j" arbitrary: j buffer)
  case 0
  then have e: "j = (k + 1) div 2" by simp
  then have "\<not> 2 * j < k" by presburger
  then show ?case
    by (subst hex_loop.simps) (simp add: e)
next
  case (Suc n)
  let ?raw = "pre @ hex_of data @ NUL # post"
  from Suc.hyps(2) have lt: "j < (k + 1) div 2" by simp
  then have c: "2 * j < k" by presburger
  have jm: "j < maxLen" using lt m(1) by simp
  have jb: "j < length buffer" using jm Suc.prems(2) by simp
  have jd: "j < length data" using c k by simp
  have r: "length pre + 2 * j + 1 < length ?raw"
    using jd by (simp add: length_hex_of)
  have n0: "?raw ! (length pre + 2 * j) = hex_digit (unat (data ! j) div 16)"
    using jd hex_of_nth [OF jd] by (simp add: nth_append length_hex_of)
  have n1: "?raw ! (length pre + 2 * j + 1) = hex_digit (unat (data ! j) mod 16)"
    using jd hex_of_nth [OF jd] by (simp add: nth_append length_hex_of)
  have s: "hex_loop ?raw (length pre) k maxLen (2 * j) j buffer
      = hex_loop ?raw (length pre) k maxLen (2 * (j + 1)) (j + 1) (buffer[j := data ! j])"
    apply (subst hex_loop.simps)
    using c jm jb r
    apply (simp only: if_True simp_thms)
    apply (simp only: n0 n1 strtol16_hex_pair)
    apply (simp add: algebra_simps)
    done
  have a: "n = (k + 1) div 2 - (j + 1)" using Suc.hyps(2) by simp
  have b: "j + 1 \<le> (k + 1) div 2" using lt by simp
  have l: "maxLen \<le> length (buffer[j := data ! j])" using Suc.prems(2) by simp
  have t: "take (j + 1) (buffer[j := data ! j]) = take j buffer @ [data ! j]"
    using jb by (simp add: take_Suc_conv_app_nth)
  have d: "drop ((k + 1) div 2) (buffer[j := data ! j]) = drop ((k + 1) div 2) buffer"
    using lt by simp
  have u: "take ((k + 1) div 2 - j) (drop j data)
      = data ! j # take ((k + 1) div 2 - (j + 1)) (drop (j + 1) data)"
  proof -
    have "drop j data = data ! j # drop (j + 1) data"
      using jd by (simp add: Cons_nth_drop_Suc)
    moreover have "(k + 1) div 2 - j = Suc ((k + 1) div 2 - (j + 1))"
      using lt by simp
    ultimately show ?thesis by simp
  qed
  show ?case
    unfolding s Suc.hyps(1) [OF a b l] t d u by simp
qed

lemma takeWhile_token:
  "CHR '','' \<notin> set tok \<Longrightarrow> takeWhile (\<lambda>c. c \<noteq> CHR '','') (tok @ CHR '','' # after) = tok"
  by (induction tok) auto

lemma dropWhile_token:
  "CHR '','' \<notin> set tok \<Longrightarrow>
     dropWhile (\<lambda>c. c \<noteq> CHR '','') (tok @ CHR '','' # after) = CHR '','' # after"
  by (induction tok) auto

lemma dropWhile_last:
  "CHR '','' \<notin> set tok \<Longrightarrow> dropWhile (\<lambda>c. c \<noteq> CHR '','') tok = []"
  by (induction tok) auto

lemma strtok_token:
  assumes "tok \<noteq> []" "CHR '','' \<notin> set tok" "NUL \<notin> set tok" "NUL \<notin> set after"
  shows "strtok (pre @ (tok @ CHR '','' # after) @ NUL # rest) (length pre) =
     (Some (length pre), pre @ tok @ NUL # after @ NUL # rest, length pre + length tok + 1)"
proof -
  obtain c cs where tok: "tok = c # cs" using assms(1) by (cases tok) auto
  have c: "c \<noteq> CHR '',''" using assms(2) tok by auto
  have n: "NUL \<notin> set (tok @ CHR '','' # after)"
    using assms(3,4) by (simp add: NUL_def)
  have dw: "dropWhile (\<lambda>c. c = CHR '','') (tok @ CHR '','' # after) = tok @ CHR '','' # after"
    and tw: "takeWhile (\<lambda>c. c = CHR '','') (tok @ CHR '','' # after) = []"
    using c by (simp_all add: tok)
  have tw2: "takeWhile (\<lambda>c. c \<noteq> CHR '','') (tok @ CHR '','' # after) = tok"
    using assms(2) by (rule takeWhile_token)
  have dw2: "dropWhile (\<lambda>c. c \<noteq> CHR '','') (tok @ CHR '','' # after) = CHR '','' # after"
    using assms(2) by (rule dropWhile_token)
  show ?thesis
    unfolding strtok_step [OF n] dw tw tw2 dw2 by simp
qed

lemma strtok_last:
  assumes "tok \<noteq> []" "CHR '','' \<notin> set tok" "NUL \<notin> set tok"
  shows "strtok (pre @ tok @ NUL # rest) (length pre) =
     (Some (length pre), pre @ tok @ NUL # rest, length pre + length tok)"
proof -
  obtain c cs where tok: "tok = c # cs" using assms(1) by (cases tok) auto
  have c: "c \<noteq> CHR '',''" using assms(2) tok by auto
  have dw: "dropWhile (\<lambda>c. c = CHR '','') tok = tok"
    and tw: "takeWhile (\<lambda>c. c = CHR '','') tok = []"
    using c by (simp_all add: tok)
  have dw2: "dropWhile (\<lambda>c. c \<noteq> CHR '','') tok = []"
    using assms(2) by (rule dropWhile_last)
  show ?thesis
    unfolding strtok_step [OF assms(3)] dw tw dw2 using assms(1) by simp
qed

lemma receive_chain:
  assumes "available l" and "read_line (rx l) 511 = (line, rest)"
    and "take 5 (line @ [NUL]) = ''+RCV=''"
    and "strtok (line @ [NUL]) 5 = (Some t1, raw1, s1)"
    and "strtok raw1 s1 = (Some t2, raw2, s2)"
    and "atoi (cstr raw2 t2) = Inr n"
    and "strtok raw2 s2 = (Some t3, raw3, s3)"
    and "hex_loop raw3 t3 (nat (n mod 2 ^ 32)) maxLen 0 0 buffer = Inr (outLen, buffer')"
    and "opt_field raw3 s3 (rssi l) = Inr (r, raw4, s4)"
    and "opt_field raw4 s4 (snr l) = Inr (s, raw5, s5)"
  shows "receive l buffer maxLen = Inr (outLen, buffer', l\<lparr>rx := rest, rssi := r, snr := s\<rparr>)"
proof -
  have r: "rssi (l\<lparr>rx := rest\<rparr>) = rssi l" and s: "snr (l\<lparr>rx := rest\<rparr>) = snr l"
    by simp_all
  show ?thesis
    unfolding receive_def Let_def assms(2) prod.case r s
    using assms(1) by (simp only: assms(3-) simp_thms if_True if_False prod.case option.case sum.case)
qed

lemma opt_field_token:
  assumes "tok \<noteq> []" "CHR '','' \<notin> set tok" "NUL \<notin> set tok" "NUL \<notin> set after"
    and "atoi tok = Inr v"
  shows "opt_field (pre @ (tok @ CHR '','' # after) @ NUL # rest) (length pre) old =
     Inr (v, pre @ tok @ NUL # after @ NUL # rest, length pre + length tok + 1)"
  unfolding opt_field_def strtok_token [OF assms(1-4)]
  by (simp add: cstr_at [OF assms(3)] assms(5))

lemma opt_field_last:
  assumes "tok \<noteq> []" "CHR '','' \<notin> set tok" "NUL \<notin> set tok"
    and "atoi tok = Inr v"
  shows "opt_field (pre @ tok @ NUL # rest) (length pre) old =
     Inr (v, pre @ tok @ NUL # rest, length pre + length tok)"
  unfolding opt_field_def strtok_last [OF assms(1-3)]
  by (simp add: cstr_at [OF assms(3)] assms(4))

lemma receive_frame:
  assumes d: "data \<noteq> []" "length data \<le> 240"
    and k: "k \<le> 2 * length data"
    and m: "(k + 1) div 2 \<le> maxLen" "maxLen \<le> length buffer"
    and rx: "rx l = ''+RCV=1,'' @ fmt_dec k @ '','' @ hex_of data @ '',-40,9''
                      @ [CHR 0x0D, CHR 0x0A] @ rest"
  shows "receive l buffer maxLen =
     Inr ((k + 1) div 2, take ((k + 1) div 2) data @ drop ((k + 1) div 2) buffer,
          l\<lparr>rx := rest, rssi := -40, snr := 9\<rparr>)"
proof -
  define ds where "ds = fmt_dec k"
  define hx where "hx = hex_of data"
  define tl3 where "tl3 = ''9'' @ [CHR 0x0D, CHR 0x0A]"
  define tl2 where "tl2 = ''-40'' @ CHR '','' # tl3"
  define tl1 where "tl1 = hx @ CHR '','' # tl2"
  define tl0 where "tl0 = ds @ CHR '','' # tl1"
  define P1 where "P1 = ''+RCV=''"
  define P2 where "P2 = ''+RCV='' @ ''1'' @ [NUL]"
  define P3 where "P3 = P2 @ ds @ [NUL]"
  define P4 where "P4 = P3 @ hx @ [NUL]"
  define P5 where "P5 = P4 @ ''-40'' @ [NUL]"
  have k1000: "k < 1000" using k d(2) by simp
  have lds: "length ds \<le> 3" unfolding ds_def by (rule length_fmt_dec [OF k1000])
  have lhx: "length hx \<le> 480" using d(2) by (simp add: hx_def length_hex_of)
  have ds: "ds \<noteq> []" "CHR '','' \<notin> set ds" "NUL \<notin> set ds" "CHR 0x0A \<notin> set ds"
    using fmt_dec_digits [of k] fmt_dec_chars [of _ k] by (auto simp add: ds_def)
  have "hex_of data \<noteq> []"
    using d(1) length_hex_of [of data] by (cases "hex_of data") auto
  then have hx: "hx \<noteq> []" "CHR '','' \<notin> set hx" "NUL \<notin> set hx" "CHR 0x0A \<notin> set hx"
    using hex_of_chars [of _ data] by (auto simp add: hx_def)
  have n3: "NUL \<notin> set tl3" by (simp add: tl3_def NUL_def)
  have n2: "NUL \<notin> set tl2" using n3 by (simp add: tl2_def NUL_def)
  have n1: "NUL \<notin> set tl1" using n2 hx(3) by (simp add: tl1_def NUL_def)
  have n0: "NUL \<notin> set tl0" using n1 ds(3) by (simp add: tl0_def NUL_def)
  define pre where "pre = ''+RCV=1,'' @ ds @ '','' @ hx @ '',-40,9'' @ [CHR 0x0D]"
  have lf: "CHR 0x0A \<notin> set pre" using ds(4) hx(4) by (simp add: pre_def)
  have lp: "length pre < 511" using lds lhx by (simp add: pre_def)
  have rxp: "rx l = pre @ CHR 0x0A # rest"
    by (simp add: rx pre_def ds_def hx_def)
  have av: "available l" by (simp add: available_def rxp)
  have rl: "read_line (rx l) 511 = (pre @ [CHR 0x0A], rest)"
    unfolding rxp by (rule read_line_to_LF [OF lf lp])
  have raw: "(pre @ [CHR 0x0A]) @ [NUL] = P1 @ (''1'' @ CHR '','' # tl0) @ NUL # []"
    by (simp add: P1_def pre_def tl0_def tl1_def tl2_def tl3_def)
  have l1: "length P1 = 5" by (simp add: P1_def)
  have p5: "take 5 ((pre @ [CHR 0x0A]) @ [NUL]) = ''+RCV=''"
    unfolding raw by (simp add: P1_def)
  have a1: "''1'' \<noteq> []" "CHR '','' \<notin> set ''1''" "NUL \<notin> set ''1''"
    by (simp_all add: NUL_def)
  have e1: "P1 @ ''1'' @ NUL # tl0 @ NUL # [] = P2 @ (ds @ CHR '','' # tl1) @ NUL # []"
    by (simp add: P1_def P2_def tl0_def)
  have e1l: "length P1 + length ''1'' + 1 = length P2"
    by (simp add: P1_def P2_def)
  have s1: "strtok ((pre @ [CHR 0x0A]) @ [NUL]) 5
      = (Some 5, P2 @ (ds @ CHR '','' # tl1) @ NUL # [], length P2)"
    using strtok_token [OF a1 n0, of P1 "[]", unfolded e1 e1l] unfolding raw l1 .
  have s2: "strtok (P2 @ (ds @ CHR '','' # tl1) @ NUL # []) (length P2)
      = (Some (length P2), P3 @ (hx @ CHR '','' # tl2) @ NUL # [], length P3)"
    unfolding strtok_token [OF ds(1-3) n1] by (simp add: P3_def tl1_def)
  have c2: "cstr (P3 @ (hx @ CHR '','' # tl2) @ NUL # []) (length P2) = ds"
    using cstr_at [OF ds(3), of P2 "(hx @ CHR '','' # tl2) @ NUL # []"] by (simp add: P3_def)
  have "atoi ds = Inr (int k)"
    unfolding ds_def using k1000 by (intro atoi_fmt_dec) simp
  then have at: "atoi (cstr (P3 @ (hx @ CHR '','' # tl2) @ NUL # []) (length P2)) = Inr (int k)"
    unfolding c2 .
  have s3: "strtok (P3 @ (hx @ CHR '','' # tl2) @ NUL # []) (length P3)
      = (Some (length P3), P3 @ hx @ NUL # tl2 @ NUL # [], length P4)"
    unfolding strtok_token [OF hx(1-3) n2] by (simp add: P4_def)
  have kk: "nat (int k mod 2 ^ 32) = k"
    using k1000 by simp
  have hl: "hex_loop (P3 @ hx @ NUL # tl2 @ NUL # []) (length P3) (nat (int k mod 2 ^ 32)) maxLen 0 0 buffer
      = Inr ((k + 1) div 2, take ((k + 1) div 2) data @ drop ((k + 1) div 2) buffer)"
    unfolding kk hx_def
    using hex_loop_hex_of [OF k m, of 0 P3 "tl2 @ NUL # []"] by simp
  have a4: "''-40'' \<noteq> []" "CHR '','' \<notin> set ''-40''" "NUL \<notin> set ''-40''"
    by (simp_all add: NUL_def)
  have v4: "atoi ''-40'' = Inr (- 40)"
    by (simp add: receive_steps)
  have r3: "P3 @ hx @ NUL # tl2 @ NUL # [] = P4 @ (''-40'' @ CHR '','' # tl3) @ NUL # []"
    by (simp add: P4_def tl2_def)
  have o1: "opt_field (P3 @ hx @ NUL # tl2 @ NUL # []) (length P4) (rssi l)
      = Inr (- 40, P5 @ tl3 @ NUL # [], length P5)"
    unfolding r3 opt_field_token [OF a4 n3 v4] by (simp add: P5_def)
  have a5: "tl3 \<noteq> []" "CHR '','' \<notin> set tl3" by (simp_all add: tl3_def)
  have v5: "atoi tl3 = Inr 9"
    by (simp add: tl3_def receive_steps)
  have o2: "opt_field (P5 @ tl3 @ NUL # []) (length P5) (snr l)
      = Inr (9, P5 @ tl3 @ NUL # [], length P5 + length tl3)"
    by (rule opt_field_last [OF a5 n3 v5])
  show ?thesis
    by (rule receive_chain [OF av rl p5 s1 s2 at s3 hl o1 o2])
qed

lemma transmit_command:
  assumes "length data \<le> 240"
  shows "tx (snd (transmit l data)) =
           tx l @ [''AT+SEND=1,'' @ fmt_dec (2 * length data) @ '','' @ hex_of data]"
proof -
  have "2 * length data < 1000" using assms by simp
  from length_fmt_dec [OF this]
  have "length (''AT+SEND=1,'' @ fmt_dec (2 * length data) @ '','' @ hex_of data) \<le> 559"
    using assms by (simp add: length_hex_of)
  then show ?thesis
    using transmit_fields(1) [OF assms, of l] by (simp add: mult.commute)
qed

lemma fmt_dec_4: "fmt_dec 4 = ''4''"
  by code_simp

lemma fmt_dec_2: "fmt_dec (Suc (Suc 0)) = ''2''"
  by code_simp

lemma hex_of_0102: "hex_of [0x01, 0x02] = ''0102''"
  by code_simp

text \<open>
  Claim C1, amended: the length field of an inbound line is the number of hexadecimal
  characters of the data field, two for each payload byte, which is also the number that
  \<open>transmit\<close> writes into its command. For every non-empty payload of at most 240 bytes
  that fits the caller's buffer: \<open>transmit\<close> writes the command
  \<open>AT+SEND=1,<2 * length>,<HEX>\<close>; from the line
  \<open>+RCV=1,<2 * length>,<HEX>,-40,9\<close>, terminated by CR LF, \<open>receive\<close> returns
  exactly the payload, records rssi = -40 and snr = 9, leaves the rest of the caller's
  buffer as it was and keeps what follows the line for the next call; from the same line
  with the payload's length in bytes as its length field it returns only the first half
  of the payload (rounded up). So \<open>+RCV=1,4,0102,-40,9\<close> gives the bytes 01 02, and
  \<open>+RCV=1,2,0102,-40,9\<close> the single byte 01.
\<close>

theorem C1_length_field_counts_hex_characters:
  assumes "data \<noteq> []" and "length data \<le> 240"
    and "length data \<le> maxLen" and "maxLen \<le> length buffer"
  shows "tx (snd (transmit l0 data)) =
           tx l0 @ [''AT+SEND=1,'' @ fmt_dec (2 * length data) @ '','' @ hex_of data]
     \<and> (rx l = ''+RCV=1,'' @ fmt_dec (2 * length data) @ '','' @ hex_of data @ '',-40,9''
                  @ [CHR 0x0D, CHR 0x0A] @ rest \<longrightarrow>
          receive l buffer maxLen =
            Inr (length data, data @ drop (length data) buffer,
                 l\<lparr>rx := rest, rssi := -40, snr := 9\<rparr>))
     \<and> (rx l = ''+RCV=1,'' @ fmt_dec (length data) @ '','' @ hex_of data @ '',-40,9''
                  @ [CHR 0x0D, CHR 0x0A] @ rest \<longrightarrow>
          receive l buffer maxLen =
            Inr ((length data + 1) div 2,
                 take ((length data + 1) div 2) data @ drop ((length data + 1) div 2) buffer,
                 l\<lparr>rx := rest, rssi := -40, snr := 9\<rparr>))"
proof (intro conjI impI)
  show "tx (snd (transmit l0 data)) =
           tx l0 @ [''AT+SEND=1,'' @ fmt_dec (2 * length data) @ '','' @ hex_of data]"
    by (rule transmit_command [OF assms(2)])
next
  assume r: "rx l = ''+RCV=1,'' @ fmt_dec (2 * length data) @ '','' @ hex_of data @ '',-40,9''
                  @ [CHR 0x0D, CHR 0x0A] @ rest"
  have k: "2 * length data \<le> 2 * length data" by simp
  have m: "(2 * length data + 1) div 2 \<le> maxLen" using assms(3) by simp
  from receive_frame [OF assms(1,2) k m assms(4) r]
  show "receive l buffer maxLen =
            Inr (length data, data @ drop (length data) buffer,
                 l\<lparr>rx := rest, rssi := -40, snr := 9\<rparr>)"
    by simp
next
  assume r: "rx l = ''+RCV=1,'' @ fmt_dec (length data) @ '','' @ hex_of data @ '',-40,9''
                  @ [CHR 0x0D, CHR 0x0A] @ rest"
  have k: "length data \<le> 2 * length data" by simp
  have m: "(length data + 1) div 2 \<le> maxLen" using assms(3) by simp
  show "receive l buffer maxLen =
            Inr ((length data + 1) div 2,
                 take ((length data + 1) div 2) data @ drop ((length data + 1) div 2) buffer,
                 l\<lparr>rx := rest, rssi := -40, snr := 9\<rparr>)"
    by (rule receive_frame [OF assms(1,2) k m assms(4) r])
qed

text \<open>
  The theorem for claim C1 at the payload 01 02 with the handler's 256-byte buffer.
\<close>

theorem C1_witness:
  "tx (snd (transmit (demo_lora []) [0x01, 0x02])) = [''AT+SEND=1,4,0102'']
   \<and> received (receive (demo_lora (''+RCV=1,4,0102,-40,9'' @ [CHR 0x0D, CHR 0x0A]))
                (replicate 256 0) 256)
       = Inr ([0x01, 0x02], -40, 9)
   \<and> received (receive (demo_lora (''+RCV=1,2,0102,-40,9'' @ [CHR 0x0D, CHR 0x0A]))
                (replicate 256 0) 256)
       = Inr ([0x01], -40, 9)"
proof -
  have d: "[0x01, 0x02 :: u8] \<noteq> []" "length [0x01, 0x02 :: u8] \<le> 240"
    "length [0x01, 0x02 :: u8] \<le> 256" "256 \<le> length (replicate 256 (0::u8))"
    by simp_all
  note th = C1_length_field_counts_hex_characters [OF d]
  have a: "rx (demo_lora (''+RCV=1,4,0102,-40,9'' @ [CHR 0x0D, CHR 0x0A]))
      = ''+RCV=1,'' @ fmt_dec (2 * length [0x01, 0x02 :: u8]) @ '','' @ hex_of [0x01, 0x02]
          @ '',-40,9'' @ [CHR 0x0D, CHR 0x0A] @ []"
    and b: "rx (demo_lora (''+RCV=1,2,0102,-40,9'' @ [CHR 0x0D, CHR 0x0A]))
      = ''+RCV=1,'' @ fmt_dec (length [0x01, 0x02 :: u8]) @ '','' @ hex_of [0x01, 0x02]
          @ '',-40,9'' @ [CHR 0x0D, CHR 0x0A] @ []"
    by (simp_all add: demo_lora_def fmt_dec_4 fmt_dec_2 hex_of_0102)
  have t: "tx (snd (transmit (demo_lora []) [0x01, 0x02])) = [''AT+SEND=1,4,0102'']"
    using th [THEN conjunct1, of "demo_lora []"]
    by (simp add: demo_lora_def fmt_dec_4 hex_of_0102)
  note r4 = th [THEN conjunct2, THEN conjunct1, THEN mp, OF a]
  note r2 = th [THEN conjunct2, THEN conjunct2, THEN mp, OF b]
  show ?thesis
    unfolding r4 r2 using t by (simp add: received_def)
qed

lemma dropWhile_commas_append:
  "t \<noteq> [] \<Longrightarrow> hd t \<noteq> CHR '','' \<Longrightarrow>
     dropWhile (\<lambda>c. c = CHR '','') (s @ t) = dropWhile (\<lambda>c. c = CHR '','') s @ t"
  by (induction s) (auto simp add: neq_Nil_conv)

lemma frame_fields_terminator:
  assumes t: "t \<noteq> []" "CHR '','' \<notin> set t"
  shows "length (frame_fields (s @ t)) =
           length (frame_fields s) + (if s = [] \<or> last s = CHR '','' then 1 else 0)"
proof (induction s rule: frame_fields.induct)
  case (1 s)
  define u where "u = dropWhile (\<lambda>c. c = CHR '','') s"
  define v where "v = dropWhile (\<lambda>c. c \<noteq> CHR '','') u"
  have ht: "hd t \<noteq> CHR '',''" using t by (cases t) auto
  have dt: "dropWhile (\<lambda>c. c \<noteq> CHR '','') t = []" "takeWhile (\<lambda>c. c \<noteq> CHR '','') t = t"
    using t(2) by (induction t) auto
  have st: "dropWhile (\<lambda>c. c = CHR '','') (s @ t) = u @ t"
    unfolding u_def by (rule dropWhile_commas_append [OF t(1) ht])
  have fe: "frame_fields [] = []" by (subst frame_fields.simps) simp
  show ?case
  proof (cases "u = []")
    case True
    then have all: "\<forall>c\<in>set s. c = CHR '',''"
      by (simp add: u_def dropWhile_eq_Nil_conv)
    then have ls: "s = [] \<or> last s = CHR '',''"
      by (cases s rule: rev_cases) auto
    have "frame_fields s = []"
      using True by (subst frame_fields.simps) (simp add: u_def)
    moreover have "frame_fields (s @ t) = [t]"
      apply (subst frame_fields.simps)
      unfolding st True Let_def using t(1) by (simp add: dt fe)
    ultimately show ?thesis using ls by simp
  next
    case False
    have su: "s \<noteq> []" using False by (auto simp add: u_def)
    have lsu: "last s = last u"
    proof -
      have "s = takeWhile (\<lambda>c. c = CHR '','') s @ u" by (simp add: u_def)
      then show ?thesis using False by (metis last_appendR)
    qed
    have fs: "frame_fields s = takeWhile (\<lambda>c. c \<noteq> CHR '','') u # frame_fields (tl v)"
      apply (subst frame_fields.simps)
      using False by (simp add: u_def v_def Let_def)
    show ?thesis
    proof (cases "v = []")
      case True
      then have nc: "\<forall>c\<in>set u. c \<noteq> CHR '',''"
        by (simp add: v_def dropWhile_eq_Nil_conv)
      then have "last u \<noteq> CHR '',''" using False by (meson last_in_set)
      moreover have "length (frame_fields s) = 1"
        unfolding fs using True by (simp add: fe)
      moreover have dd: "dropWhile (\<lambda>c. c \<noteq> CHR '','') (u @ t) = []"
        using nc t(2) by (simp add: dropWhile_eq_Nil_conv) blast
      have "length (frame_fields (s @ t)) = 1"
        apply (subst frame_fields.simps)
        unfolding st Let_def dd using False by (simp add: fe)
      ultimately show ?thesis using su lsu by simp
    next
      case f: False
      then obtain w where v: "v = CHR '','' # w"
        using hd_dropWhile [of "\<lambda>c. c \<noteq> CHR '',''" u]
        by (cases v) (auto simp add: v_def)
      define tk where "tk = takeWhile (\<lambda>c. c \<noteq> CHR '','') u"
      have ntk: "CHR '','' \<notin> set tk"
        unfolding tk_def by (auto dest: set_takeWhileD)
      have "u = tk @ v"
        by (simp add: tk_def v_def)
      then have uu: "u = tk @ CHR '','' # w"
        by (simp add: v)
      have dw: "dropWhile (\<lambda>c. c \<noteq> CHR '','') (u @ t) = CHR '','' # w @ t"
        unfolding uu using dropWhile_token [OF ntk, of "w @ t"] by simp
      have tw: "takeWhile (\<lambda>c. c \<noteq> CHR '','') (u @ t) = tk"
        unfolding uu using takeWhile_token [OF ntk, of "w @ t"] by simp
      have fst: "frame_fields (s @ t) = tk # frame_fields (w @ t)"
        apply (subst frame_fields.simps)
        unfolding st Let_def dw tw using False by simp
      have ih: "length (frame_fields (w @ t)) =
           length (frame_fields w) + (if w = [] \<or> last w = CHR '','' then 1 else 0)"
        using "1.IH" [OF u_def False, folded v_def, unfolded v] by simp
      have "last s = (if w = [] then CHR '','' else last w)"
        unfolding lsu uu by simp
      then have lw: "(s = [] \<or> last s = CHR '','') \<longleftrightarrow> (w = [] \<or> last w = CHR '','')"
        using su by simp
      show ?thesis
        unfolding fst fs v tk_def [symmetric] using ih lw by simp
    qed
  qed
qed

lemma frame_fields_after_comma:
  assumes t: "t \<noteq> []" "CHR '','' \<notin> set t"
  shows "s = [] \<or> last s = CHR '','' \<Longrightarrow> frame_fields (s @ t) = frame_fields s @ [t]"
proof (induction s rule: frame_fields.induct)
  case (1 s)
  define u where "u = dropWhile (\<lambda>c. c = CHR '','') s"
  define v where "v = dropWhile (\<lambda>c. c \<noteq> CHR '','') u"
  have ht: "hd t \<noteq> CHR '',''" using t by (cases t) auto
  have dt: "dropWhile (\<lambda>c. c \<noteq> CHR '','') t = []" "takeWhile (\<lambda>c. c \<noteq> CHR '','') t = t"
    using t(2) by (induction t) auto
  have st: "dropWhile (\<lambda>c. c = CHR '','') (s @ t) = u @ t"
    unfolding u_def by (rule dropWhile_commas_append [OF t(1) ht])
  have fe: "frame_fields [] = []" by (subst frame_fields.simps) simp
  show ?case
  proof (cases "u = []")
    case True
    have "frame_fields s = []"
      using True by (subst frame_fields.simps) (simp add: u_def)
    moreover have "frame_fields (s @ t) = [t]"
      apply (subst frame_fields.simps)
      unfolding st True Let_def using t(1) by (simp add: dt fe)
    ultimately show ?thesis by simp
  next
    case False
    have su: "s \<noteq> []" using False by (auto simp add: u_def)
    have lsu: "last s = last u"
    proof -
      have "s = takeWhile (\<lambda>c. c = CHR '','') s @ u" by (simp add: u_def)
      then show ?thesis using False by (metis last_appendR)
    qed
    have fs: "frame_fields s = takeWhile (\<lambda>c. c \<noteq> CHR '','') u # frame_fields (tl v)"
      apply (subst frame_fields.simps)
      using False by (simp add: u_def v_def Let_def)
    have lc: "last u = CHR '',''"
      using "1.prems" su lsu by simp
    have "v \<noteq> []"
    proof
      assume "v = []"
      then have "\<forall>c\<in>set u. c \<noteq> CHR '',''"
        by (simp add: v_def dropWhile_eq_Nil_conv)
      then have "last u \<noteq> CHR '',''" using False by (meson last_in_set)
      with lc show False by simp
    qed
    then obtain w where v: "v = CHR '','' # w"
      using hd_dropWhile [of "\<lambda>c. c \<noteq> CHR '',''" u]
      by (cases v) (auto simp add: v_def)
    define tk where "tk = takeWhile (\<lambda>c. c \<noteq> CHR '','') u"
    have ntk: "CHR '','' \<notin> set tk"
      unfolding tk_def by (auto dest: set_takeWhileD)
    have "u = tk @ v"
      by (simp add: tk_def v_def)
    then have uu: "u = tk @ CHR '','' # w"
      by (simp add: v)
    have dw: "dropWhile (\<lambda>c. c \<noteq> CHR '','') (u @ t) = CHR '','' # w @ t"
      unfolding uu using dropWhile_token [OF ntk, of "w @ t"] by simp
    have tw: "takeWhile (\<lambda>c. c \<noteq> CHR '','') (u @ t) = tk"
      unfolding uu using takeWhile_token [OF ntk, of "w @ t"] by simp
    have fst: "frame_fields (s @ t) = tk # frame_fields (w @ t)"
      apply (subst frame_fields.simps)
      unfolding st Let_def dw tw using False by simp
    have "last u = (if w = [] then CHR '','' else last w)"
      unfolding uu by simp
    then have lw: "w = [] \<or> last w = CHR '',''"
      using lc by (simp split: if_splits)
    have ih: "frame_fields (w @ t) = frame_fields w @ [t]"
      using "1.IH" [OF u_def False, folded v_def, unfolded v] lw by simp
    show ?thesis
      unfolding fst fs v tk_def [symmetric] using ih by simp
  qed
qed

lemma receive_terminated:
  assumes av: "available l" and rl: "read_line (rx l) 511 = (line, rest)"
    and ln: "line = ''+RCV='' @ body @ [CHR 0x0D, CHR 0x0A]" and nb: "NUL \<notin> set body"
  shows "length (frame_fields body) < 2 \<Longrightarrow>
           receive l buffer maxLen = Inr (0, buffer, l\<lparr>rx := rest\<rparr>)"
    and "length (frame_fields body) = 2 \<Longrightarrow> last body \<noteq> CHR '','' \<Longrightarrow>
           receive l buffer maxLen = Inr (0, buffer, l\<lparr>rx := rest\<rparr>)
         \<or> (\<exists>a b. frame_fields (body @ [CHR 0x0D, CHR 0x0A]) = [a, b] \<and> atoi b = Inl Overflow
                \<and> receive l buffer maxLen = Inl Overflow)"
proof -
  let ?t = "[CHR 0x0D, CHR 0x0A]"
  have t: "?t \<noteq> []" "CHR '','' \<notin> set ?t" by simp_all
  have pf: "take 5 line = ''+RCV=''" by (simp add: ln)
  have "\<forall>c\<in>set (body @ ?t). c \<noteq> NUL"
    using nb by (auto simp add: NUL_def)
  then have "takeWhile (\<lambda>c. c \<noteq> NUL) (body @ ?t) = body @ ?t"
    by (simp only: takeWhile_eq_all_conv)
  then have bd: "takeWhile (\<lambda>c. c \<noteq> NUL) (drop 5 line) = body @ ?t"
    by (simp add: ln)
  note len = frame_fields_terminator [OF t, of body]
  {
    assume f: "length (frame_fields body) < 2"
    then have "length (frame_fields (takeWhile (\<lambda>c. c \<noteq> NUL) (drop 5 line))) < 3"
      unfolding bd len by simp
    from receive_truncated [OF av rl pf this, of buffer maxLen]
    show "receive l buffer maxLen = Inr (0, buffer, l\<lparr>rx := rest\<rparr>)"
    proof
      assume "\<exists>a b. frame_fields (takeWhile (\<lambda>c. c \<noteq> NUL) (drop 5 line)) = [a, b]
                \<and> atoi b = Inl Overflow \<and> receive l buffer maxLen = Inl Overflow"
      then obtain a b where ab: "frame_fields (body @ ?t) = [a, b]" and o: "atoi b = Inl Overflow"
        unfolding bd by blast
      from ab have "length (frame_fields (body @ ?t)) = 2" by simp
      with f have c: "body = [] \<or> last body = CHR '',''"
        unfolding len by (simp split: if_splits)
      from frame_fields_after_comma [OF t c] ab have "b = ?t" by simp
      moreover have "atoi ?t = Inr 0" by (simp add: receive_steps)
      ultimately show ?thesis using o by simp
    qed
  next
    assume f: "length (frame_fields body) = 2" and c: "last body \<noteq> CHR '',''"
    have "frame_fields [] = []" by (subst frame_fields.simps) simp
    with f have "body \<noteq> []" by auto
    with f c have "length (frame_fields (takeWhile (\<lambda>c. c \<noteq> NUL) (drop 5 line))) < 3"
      unfolding bd len by simp
    from receive_truncated [OF av rl pf this, of buffer maxLen]
    show "receive l buffer maxLen = Inr (0, buffer, l\<lparr>rx := rest\<rparr>)
         \<or> (\<exists>a b. frame_fields (body @ [CHR 0x0D, CHR 0x0A]) = [a, b] \<and> atoi b = Inl Overflow
                \<and> receive l buffer maxLen = Inl Overflow)"
      unfolding bd .
  }
qed

text \<open>
  Claim C3 as stated: odd-length data and truncated frames give "no frame". The line
  \<open>+RCV=1,3,010,-40,9\<close> gives the two bytes 01 00, and the line
  \<open>+RCV=1,4,0102\<close>, which has no signal fields, gives the bytes 01 02, each of them
  with and without the terminating CR LF. The line \<open>+RCV=1,2,\<close> followed by CR LF,
  which has no data at all, gives the byte 00: the terminator is converted as the data.
\<close>

theorem C3_counterexample:
  "received (receive (demo_lora ''+RCV=1,3,010,-40,9'') (replicate 256 0) 256)
     = Inr ([0x01, 0x00], -40, 9)
   \<and> received (receive (demo_lora ''+RCV=1,4,0102'') (replicate 256 0) 256)
     = Inr ([0x01, 0x02], 0, 0)
   \<and> received (receive (demo_lora (''+RCV=1,3,010,-40,9'' @ [CHR 0x0D, CHR 0x0A]))
                (replicate 256 0) 256)
     = Inr ([0x01, 0x00], -40, 9)
   \<and> received (receive (demo_lora (''+RCV=1,4,0102'' @ [CHR 0x0D, CHR 0x0A]))
                (replicate 256 0) 256)
     = Inr ([0x01, 0x02], 0, 0)
   \<and> received (receive (demo_lora (''+RCV=1,2,'' @ [CHR 0x0D, CHR 0x0A]))
                (replicate 256 0) 256)
     = Inr ([0x00], 0, 0)"
  by code_simp

text \<open>
  Claim C3, amended: a line that does not begin with \<open>+RCV=\<close> gives "no frame": zero
  bytes, with the caller's buffer and the signal metadata untouched. So does a line that
  begins with it and has fewer than three fields after the prefix, where a field is a
  non-empty run of characters other than the comma and the characters of the line's
  terminator are such characters (a two-field line whose length does not fit an
  \<open>int\<close> is undefined behaviour of \<open>atoi\<close> instead). For a line that ends in CR LF
  this is the case when the text between the prefix and the terminator has fewer than two
  fields, and when it has two and does not end in a comma. It is not the case for
  \<open>+RCV=1,2,\<close> followed by CR LF, where the terminator stands in the place of the data.
  Whenever \<open>receive\<close> returns \<open>n\<close> bytes, only the first \<open>n\<close> bytes of the caller's
  buffer can have changed, so a return of zero never leaves a partial payload.
\<close>

theorem C3_no_frame_leaves_buffer_untouched:
  assumes "available l" and "read_line (rx l) 511 = (line, rest)"
  shows "(take 5 line \<noteq> ''+RCV='' \<longrightarrow>
            receive l buffer maxLen = Inr (0, buffer, l\<lparr>rx := rest\<rparr>))
     \<and> (take 5 line = ''+RCV=''
          \<and> length (frame_fields (takeWhile (\<lambda>c. c \<noteq> NUL) (drop 5 line))) < 3 \<longrightarrow>
            receive l buffer maxLen = Inr (0, buffer, l\<lparr>rx := rest\<rparr>)
          \<or> (\<exists>a b. frame_fields (takeWhile (\<lambda>c. c \<noteq> NUL) (drop 5 line)) = [a, b]
                 \<and> atoi b = Inl Overflow \<and> receive l buffer maxLen = Inl Overflow))
     \<and> (\<forall>body. line = ''+RCV='' @ body @ [CHR 0x0D, CHR 0x0A] \<and> NUL \<notin> set body
                \<and> length (frame_fields body) < 2 \<longrightarrow>
            receive l buffer maxLen = Inr (0, buffer, l\<lparr>rx := rest\<rparr>))
     \<and> (\<forall>body. line = ''+RCV='' @ body @ [CHR 0x0D, CHR 0x0A] \<and> NUL \<notin> set body
                \<and> length (frame_fields body) = 2 \<and> last body \<noteq> CHR '','' \<longrightarrow>
            receive l buffer maxLen = Inr (0, buffer, l\<lparr>rx := rest\<rparr>)
          \<or> (\<exists>a b. frame_fields (body @ [CHR 0x0D, CHR 0x0A]) = [a, b]
                 \<and> atoi b = Inl Overflow \<and> receive l buffer maxLen = Inl Overflow))
     \<and> (\<forall>n b' l'. receive l buffer maxLen = Inr (n, b', l') \<longrightarrow>
            length b' = length buffer \<and> drop n b' = drop n buffer)
     \<and> (\<forall>b' l'. receive l buffer maxLen = Inr (0, b', l') \<longrightarrow> b' = buffer)"
proof (intro conjI impI allI)
  assume "take 5 line \<noteq> ''+RCV=''"
  then have "take 5 (fst (read_line (rx l) 511)) \<noteq> ''+RCV=''" by (simp add: assms(2))
  from receive_wrong_prefix [OF this, of buffer maxLen]
  show "receive l buffer maxLen = Inr (0, buffer, l\<lparr>rx := rest\<rparr>)"
    using assms by simp
next
  assume "take 5 line = ''+RCV=''
          \<and> length (frame_fields (takeWhile (\<lambda>c. c \<noteq> NUL) (drop 5 line))) < 3"
  then show "receive l buffer maxLen = Inr (0, buffer, l\<lparr>rx := rest\<rparr>)
          \<or> (\<exists>a b. frame_fields (takeWhile (\<lambda>c. c \<noteq> NUL) (drop 5 line)) = [a, b]
                 \<and> atoi b = Inl Overflow \<and> receive l buffer maxLen = Inl Overflow)"
    using receive_truncated [OF assms] by blast
next
  fix body
  assume "line = ''+RCV='' @ body @ [CHR 0x0D, CHR 0x0A] \<and> NUL \<notin> set body
                \<and> length (frame_fields body) < 2"
  then show "receive l buffer maxLen = Inr (0, buffer, l\<lparr>rx := rest\<rparr>)"
    using receive_terminated(1) [OF assms, of body buffer maxLen] by simp
next
  fix body
  assume "line = ''+RCV='' @ body @ [CHR 0x0D, CHR 0x0A] \<and> NUL \<notin> set body
                \<and> length (frame_fields body) = 2 \<and> last body \<noteq> CHR '',''"
  then show "receive l buffer maxLen = Inr (0, buffer, l\<lparr>rx := rest\<rparr>)
          \<or> (\<exists>a b. frame_fields (body @ [CHR 0x0D, CHR 0x0A]) = [a, b]
                 \<and> atoi b = Inl Overflow \<and> receive l buffer maxLen = Inl Overflow)"
    using receive_terminated(2) [OF assms, of body buffer maxLen] by simp
next
  fix n b' l' assume "receive l buffer maxLen = Inr (n, b', l')"
  from receive_writes [OF this]
  show "length b' = length buffer" and "drop n b' = drop n buffer" by simp_all
next
  fix b' l' assume "receive l buffer maxLen = Inr (0, b', l')"
  from receive_writes [OF this] show "b' = buffer" by simp
qed

text \<open>
  The theorem for claim C3 at lines that end in CR LF: one with a wrong prefix, one cut
  off after the address, one cut off after the length, and a complete one; and at a line
  cut off after the length that the read window closed on before any terminator.
\<close>

theorem C3_witness:
  "receive (demo_lora (''+XYZ=1,4,0102,-40,9'' @ [CHR 0x0D, CHR 0x0A])) (replicate 4 7) 4
     = Inr (0, replicate 4 7, (demo_lora (''+XYZ=1,4,0102,-40,9'' @ [CHR 0x0D, CHR 0x0A]))\<lparr>rx := []\<rparr>)
   \<and> receive (demo_lora (''+RCV=1,'' @ [CHR 0x0D, CHR 0x0A])) (replicate 4 7) 4
     = Inr (0, replicate 4 7, (demo_lora (''+RCV=1,'' @ [CHR 0x0D, CHR 0x0A]))\<lparr>rx := []\<rparr>)
   \<and> receive (demo_lora (''+RCV=1,4'' @ [CHR 0x0D, CHR 0x0A])) (replicate 4 7) 4
     = Inr (0, replicate 4 7, (demo_lora (''+RCV=1,4'' @ [CHR 0x0D, CHR 0x0A]))\<lparr>rx := []\<rparr>)
   \<and> (case receive (demo_lora (''+RCV=1,4,0102,-40,9'' @ [CHR 0x0D, CHR 0x0A])) (replicate 4 7) 4 of
        Inl f \<Rightarrow> False
      | Inr (n, b', l') \<Rightarrow> n = 2 \<and> length b' = 4 \<and> drop n b' = [7, 7])
   \<and> receive (demo_lora ''+RCV=1,4'') (replicate 4 7) 4
     = Inr (0, replicate 4 7, (demo_lora ''+RCV=1,4'')\<lparr>rx := []\<rparr>)
   \<and> (case receive (demo_lora ''+RCV='') (replicate 4 7) 4 of
        Inl f \<Rightarrow> False
      | Inr (n, b', l') \<Rightarrow> n = 0 \<and> b' = replicate 4 7)"
proof -
  let ?x = "''+XYZ=1,4,0102,-40,9'' @ [CHR 0x0D, CHR 0x0A]"
  let ?a = "''+RCV=1,'' @ [CHR 0x0D, CHR 0x0A]"
  let ?b = "''+RCV=1,4'' @ [CHR 0x0D, CHR 0x0A]"
  let ?c = "''+RCV=1,4,0102,-40,9'' @ [CHR 0x0D, CHR 0x0A]"
  have a1: "available (demo_lora ?x)" and a2: "available (demo_lora ?a)"
    and a3: "available (demo_lora ?b)" and a4: "available (demo_lora ?c)"
    by (simp_all add: available_def demo_lora_def)
  have r1: "read_line (rx (demo_lora ?x)) 511 = (?x, [])"
    and r2: "read_line (rx (demo_lora ?a)) 511 = (?a, [])"
    and r3: "read_line (rx (demo_lora ?b)) 511 = (?b, [])"
    and r4: "read_line (rx (demo_lora ?c)) 511 = (?c, [])"
    by (simp_all add: demo_lora_def)
  have p1: "take 5 ?x \<noteq> ''+RCV=''" by simp
  note w1 = C3_no_frame_leaves_buffer_untouched [OF a1 r1, of "replicate 4 7" 4,
      THEN conjunct1, THEN mp, OF p1]
  have f2: "frame_fields ''1,'' = [''1'']" by code_simp
  have p2: "?a = ''+RCV='' @ ''1,'' @ [CHR 0x0D, CHR 0x0A] \<and> NUL \<notin> set ''1,''
                \<and> length (frame_fields ''1,'') < 2"
    unfolding f2 by (simp add: NUL_def)
  note w2 = C3_no_frame_leaves_buffer_untouched [OF a2 r2, of "replicate 4 7" 4,
      THEN conjunct2, THEN conjunct2, THEN conjunct1, THEN spec, THEN mp, OF p2]
  have f3: "frame_fields ''1,4'' = [''1'', ''4'']" by code_simp
  have g3: "frame_fields (''1,4'' @ [CHR 0x0D, CHR 0x0A]) = [''1'', ''4'' @ [CHR 0x0D, CHR 0x0A]]"
    by code_simp
  have o3: "atoi (''4'' @ [CHR 0x0D, CHR 0x0A]) \<noteq> Inl Overflow" by code_simp
  have p3: "?b = ''+RCV='' @ ''1,4'' @ [CHR 0x0D, CHR 0x0A] \<and> NUL \<notin> set ''1,4''
                \<and> length (frame_fields ''1,4'') = 2 \<and> last ''1,4'' \<noteq> CHR '',''"
    unfolding f3 by (simp add: NUL_def)
  from C3_no_frame_leaves_buffer_untouched [OF a3 r3, of "replicate 4 7" 4,
      THEN conjunct2, THEN conjunct2, THEN conjunct2, THEN conjunct1, THEN spec, THEN mp, OF p3]
  have w3: "receive (demo_lora ?b) (replicate 4 7) 4
     = Inr (0, replicate 4 7, (demo_lora ?b)\<lparr>rx := []\<rparr>)"
    unfolding g3 using o3 by auto
  have e: "(case receive (demo_lora ?c) (replicate 4 7) 4 of
        Inl f \<Rightarrow> False | Inr (n, b', l') \<Rightarrow> n = 2)"
    by code_simp
  then obtain b' l' where
    r: "receive (demo_lora ?c) (replicate 4 7) 4 = Inr (2, b', l')"
    by (cases "receive (demo_lora ?c) (replicate 4 7) 4") auto
  from C3_no_frame_leaves_buffer_untouched [OF a4 r4, of "replicate 4 7" 4,
      THEN conjunct2, THEN conjunct2, THEN conjunct2, THEN conjunct2, THEN conjunct1,
      THEN spec, THEN spec, THEN spec, THEN mp, OF r]
  have "length b' = length (replicate 4 (7::u8)) \<and> drop 2 b' = drop 2 (replicate 4 (7::u8))" .
  then have u: "(case receive (demo_lora ?c) (replicate 4 7) 4 of
        Inl f \<Rightarrow> False
      | Inr (n, b', l') \<Rightarrow> n = 2 \<and> length b' = 4 \<and> drop n b' = [7, 7])"
    unfolding r by (simp add: numeral_2_eq_2)
  have a5: "available (demo_lora ''+RCV=1,4'')"
    by (simp add: available_def demo_lora_def)
  have r5: "read_line (rx (demo_lora ''+RCV=1,4'')) 511 = (''+RCV=1,4'', [])"
    by (simp add: demo_lora_def)
  have f5: "frame_fields (takeWhile (\<lambda>c. c \<noteq> NUL) (drop 5 ''+RCV=1,4'')) = [''1'', ''4'']"
    by code_simp
  have p5: "take 5 ''+RCV=1,4'' = ''+RCV=''
          \<and> length (frame_fields (takeWhile (\<lambda>c. c \<noteq> NUL) (drop 5 ''+RCV=1,4''))) < 3"
    unfolding f5 by simp
  have o5: "atoi ''4'' \<noteq> Inl Overflow" by code_simp
  from C3_no_frame_leaves_buffer_untouched [OF a5 r5, of "replicate 4 7" 4,
      THEN conjunct2, THEN conjunct1, THEN mp, OF p5]
  have w5: "receive (demo_lora ''+RCV=1,4'') (replicate 4 7) 4
     = Inr (0, replicate 4 7, (demo_lora ''+RCV=1,4'')\<lparr>rx := []\<rparr>)"
    unfolding f5 using o5 by auto
  have a6: "available (demo_lora ''+RCV='')"
    by (simp add: available_def demo_lora_def)
  have r6: "read_line (rx (demo_lora ''+RCV='')) 511 = (''+RCV='', [])"
    by (simp add: demo_lora_def)
  have "(case receive (demo_lora ''+RCV='') (replicate 4 7) 4 of
        Inl f \<Rightarrow> False | Inr (n, b', l') \<Rightarrow> n = 0)"
    by code_simp
  then obtain b6 l6 where
    r: "receive (demo_lora ''+RCV='') (replicate 4 7) 4 = Inr (0, b6, l6)"
    by (cases "receive (demo_lora ''+RCV='') (replicate 4 7) 4") auto
  from C3_no_frame_leaves_buffer_untouched [OF a6 r6, of "replicate 4 7" 4,
      THEN conjunct2, THEN conjunct2, THEN conjunct2, THEN conjunct2, THEN conjunct2,
      THEN spec, THEN spec, THEN mp, OF r]
  have "b6 = replicate 4 7" .
  then have w6: "(case receive (demo_lora ''+RCV='') (replicate 4 7) 4 of
        Inl f \<Rightarrow> False
      | Inr (n, b', l') \<Rightarrow> n = 0 \<and> b' = replicate 4 7)"
    unfolding r by simp
  from w1 w2 w3 u w5 w6 show ?thesis by (intro conjI)
qed

section \<open>The order within a pass\<close>














end
